theory Spec2Isabelle
  imports Main
begin

section \<open>Tables of the tabular-data library\<close>

text \<open>
  The script \<^verbatim>\<open>exploratory_data_anaysis.py\<close> works on pandas data frames. A frame is
  modelled column by column, as pandas stores it: the number of rows of its index and
  the columns in their order, each a label with its cells.

  A cell is a whole number (\<open>IntV\<close>, whether pandas stores it as int64 or as a float64
  with an integral value such as \<open>1430.0\<close>), a text (\<open>StrV\<close>) or the missing value
  (\<open>NaN\<close>). Numbers with a fractional part are outside the model. Two cells are the same
  group key, the same join key and the same duplicate key exactly when they are equal
  here, the missing value included, as in pandas. The keys of the dictionary of
  \<^verbatim>\<open>load_data\<close> are Python objects and are modelled apart (see \<open>series_iter\<close>).
\<close>

datatype cell = IntV int | StrV string | NaN

record frame =
  nrows :: nat
  cols :: "(string \<times> cell list) list"

text \<open>What every frame of pandas satisfies: distinct labels, columns as long as the index.\<close>

definition frame_ok :: "frame \<Rightarrow> bool" where
  "frame_ok df \<longleftrightarrow>
     distinct (map fst (cols df)) \<and> list_all (\<lambda>c. length (snd c) = nrows df) (cols df)"

datatype error =
    FileNotFoundError string
  | KeyError cell
  | AttributeError string
  | ValueError
  | IndexError

text \<open>
  A statement that may raise returns \<open>Inl\<close> the error or \<open>Inr\<close> its value; \<open>ebind\<close> runs
  the rest of the function on the value and propagates the error.
\<close>

definition ebind :: "error + 'a \<Rightarrow> ('a \<Rightarrow> error + 'b) \<Rightarrow> error + 'b" where
  "ebind x f = (case x of Inl e \<Rightarrow> Inl e | Inr a \<Rightarrow> f a)"

definition columns :: "frame \<Rightarrow> string list" where
  "columns df = map fst (cols df)"

text \<open>\<^verbatim>\<open>df.name\<close>: the column, or AttributeError.\<close>

definition getattr_col :: "frame \<Rightarrow> string \<Rightarrow> error + cell list" where
  "getattr_col df name =
     (case map_of (cols df) name of
        None \<Rightarrow> Inl (AttributeError name)
      | Some c \<Rightarrow> Inr c)"

text \<open>\<^verbatim>\<open>df[name]\<close> and every lookup of a label by a method: the column, or KeyError.\<close>

definition getitem_col :: "frame \<Rightarrow> string \<Rightarrow> error + cell list" where
  "getitem_col df name =
     (case map_of (cols df) name of
        None \<Rightarrow> Inl (KeyError (StrV name))
      | Some c \<Rightarrow> Inr c)"

text \<open>\<^verbatim>\<open>df.drop(columns=names, inplace=True)\<close>: KeyError when a label is not a column.\<close>

definition drop_columns :: "string list \<Rightarrow> frame \<Rightarrow> error + frame" where
  "drop_columns names df =
     (case filter (\<lambda>n. n \<notin> set (columns df)) names of
        m # _ \<Rightarrow> Inl (KeyError (StrV m))
      | [] \<Rightarrow> Inr (df\<lparr>cols := filter (\<lambda>c. fst c \<notin> set names) (cols df)\<rparr>))"

text \<open>
  \<^verbatim>\<open>df[name] = values\<close>: ValueError when the length differs from the index; an existing
  column is replaced where it stands, a new one is appended.
\<close>

fun replace_col :: "string \<Rightarrow> cell list \<Rightarrow> (string \<times> cell list) list \<Rightarrow> (string \<times> cell list) list" where
  "replace_col name vs [] = []"
| "replace_col name vs (c # cs) =
     (if fst c = name then (name, vs) # cs else c # replace_col name vs cs)"

definition set_column :: "string \<Rightarrow> cell list \<Rightarrow> frame \<Rightarrow> error + frame" where
  "set_column name vs df =
     (if length vs \<noteq> nrows df then Inl ValueError
      else if name \<in> set (columns df) then Inr (df\<lparr>cols := replace_col name vs (cols df)\<rparr>)
      else Inr (df\<lparr>cols := cols df @ [(name, vs)]\<rparr>))"

text \<open>
  A column that holds a text is an object column of pandas: its cells are Python
  objects. A column without text is a numeric one (int64, or float64 when a cell is
  missing or beyond the range of int64).
\<close>

definition has_text :: "cell list \<Rightarrow> bool" where
  "has_text ks = list_ex (\<lambda>k. case k of StrV s \<Rightarrow> True | _ \<Rightarrow> False) ks"

text \<open>
  \<^verbatim>\<open>series.astype(int)\<close>, the conversion to int64. A whole number within the range of
  int64 stays, and a missing value raises ValueError. Two conversions are parameters,
  so that nothing proved below depends on them: \<open>py_int\<close> is what a text becomes
  (Python's \<^verbatim>\<open>int()\<close> and the store into the int64 array, or the error either raises),
  and \<open>wrap\<close> is the int64 that the cast leaves of a whole number beyond the range (it
  does not raise: a float64 such as \<open>1e19\<close> becomes \<open>- 2 ^ 63\<close>).
\<close>

fun astype_int :: "(string \<Rightarrow> error + int) \<Rightarrow> (int \<Rightarrow> int) \<Rightarrow> cell list \<Rightarrow> error + cell list" where
  "astype_int py_int wrap [] = Inr []"
| "astype_int py_int wrap (c # cs) =
     (case (case c of
              IntV i \<Rightarrow> Inr (if - (2 ^ 63) \<le> i \<and> i < 2 ^ 63 then i else wrap i)
            | StrV s \<Rightarrow> py_int s
            | NaN \<Rightarrow> Inl ValueError) of
        Inl e \<Rightarrow> Inl e
      | Inr i \<Rightarrow>
          (case astype_int py_int wrap cs of
             Inl e \<Rightarrow> Inl e
           | Inr is \<Rightarrow> Inr (IntV i # is)))"

section \<open>The loader\<close>

definition FILE_ARTICLES :: string where
  "FILE_ARTICLES = ''./articles_community.csv''"

definition FILE_INTERACTIONS :: string where
  "FILE_INTERACTIONS = ''./user-item-interactions.csv''"

text \<open>
  The file system is a map from a path to the frame \<^verbatim>\<open>pandas.read_csv\<close> parses from it;
  a path outside the map is a file that cannot be read.
\<close>

definition read_csv :: "(string \<rightharpoonup> frame) \<Rightarrow> string \<Rightarrow> error + frame" where
  "read_csv files path =
     (case files path of
        None \<Rightarrow> Inl (FileNotFoundError path)
      | Some df \<Rightarrow> Inr df)"

text \<open>
  What \<^verbatim>\<open>for email in interactions.email\<close> yields, row by row: the Python objects that
  the dictionary of the loop takes as keys. A dictionary finds a key when it holds an
  object that is identical or equal to it, and a float nan equals nothing, itself
  included.
  \<^item> In an object column the cells themselves are yielded, and every missing cell is
    the one object \<^verbatim>\<open>numpy.nan\<close> that the parser stored: \<open>Obj\<close>, found again by identity.
  \<^item> In a numeric column each cell is boxed into a new Python number when it is
    yielded. Equal numbers are equal keys (\<open>Obj\<close>), but a missing cell is a new float
    nan on every row, found by no later row: \<open>FloatNaN i\<close> for the row \<open>i\<close>.
\<close>

datatype key = Obj cell | FloatNaN nat

fun key_cell :: "key \<Rightarrow> cell" where
  "key_cell (Obj c) = c"
| "key_cell (FloatNaN i) = NaN"

definition series_iter :: "cell list \<Rightarrow> key list" where
  "series_iter col =
     (if has_text col then map Obj col
      else map (\<lambda>r. if snd r = NaN then FloatNaN (fst r) else Obj (snd r))
             (zip [0..<length col] col))"

text \<open>
  The loop of \<^verbatim>\<open>load_data\<close> (lines 41 to 49) over the email column. Its state is the
  three locals \<^verbatim>\<open>email_id\<close>, \<^verbatim>\<open>email_encoder\<close> (the dictionary, as an association list in
  insertion order) and \<^verbatim>\<open>user_ids\<close>. The lookup \<^verbatim>\<open>email_encoder[email]\<close> of line 49 raises
  KeyError on a missing key.
\<close>

type_synonym encoder_state = "int \<times> (key \<times> int) list \<times> int list"

fun email_loop :: "key list \<Rightarrow> encoder_state \<Rightarrow> error + encoder_state" where
  "email_loop [] s = Inr s"
| "email_loop (email # rest) (email_id, email_encoder, user_ids) =
     (let (email_id', email_encoder') =
            (if map_of email_encoder email = None
             then (email_id + 1, email_encoder @ [(email, email_id)])
             else (email_id, email_encoder))
      in case map_of email_encoder' email of
           None \<Rightarrow> Inl (KeyError (key_cell email))
         | Some u \<Rightarrow> email_loop rest (email_id', email_encoder', user_ids @ [u]))"

definition encode_emails :: "key list \<Rightarrow> error + encoder_state" where
  "encode_emails emails = email_loop emails (0, [], [])"

definition load_data ::
  "(string \<Rightarrow> error + int) \<Rightarrow> (int \<Rightarrow> int) \<Rightarrow> (string \<rightharpoonup> frame) \<Rightarrow> error + (frame \<times> frame)" where
  "load_data py_int wrap files =
     ebind (read_csv files FILE_ARTICLES) (\<lambda>articles0.
     ebind (drop_columns [''Unnamed: 0''] articles0) (\<lambda>articles.
     ebind (read_csv files FILE_INTERACTIONS) (\<lambda>interactions0.
     ebind (drop_columns [''Unnamed: 0''] interactions0) (\<lambda>interactions1.
     ebind (getattr_col interactions1 ''article_id'') (\<lambda>ids0.
     ebind (astype_int py_int wrap ids0) (\<lambda>ids.
     ebind (set_column ''article_id'' ids interactions1) (\<lambda>interactions2.
     ebind (getattr_col interactions2 ''email'') (\<lambda>emails.
     ebind (encode_emails (series_iter emails)) (\<lambda>(email_id, email_encoder, user_ids).
     ebind (drop_columns [''email''] interactions2) (\<lambda>interactions3.
     ebind (set_column ''user_id'' (map IntV user_ids) interactions3) (\<lambda>interactions.
     Inr (articles, interactions))))))))))))"

section \<open>Series operations\<close>

text \<open>\<^verbatim>\<open>series.unique()\<close>: the distinct values, in the order of their first appearance.\<close>

fun unique :: "'a list \<Rightarrow> 'a list" where
  "unique [] = []"
| "unique (x # xs) = x # filter (\<lambda>y. y \<noteq> x) (unique xs)"

text \<open>
  The order of group keys: whole numbers by value, texts by their characters, whole
  numbers before texts. Nothing the script prints or plots depends on the order of the
  groups.
\<close>

fun str_le :: "string \<Rightarrow> string \<Rightarrow> bool" where
  "str_le [] t = True"
| "str_le (a # s) [] = False"
| "str_le (a # s) (b # t) = ((of_char a :: nat) < of_char b \<or> (a = b \<and> str_le s t))"

fun cell_le :: "cell \<Rightarrow> cell \<Rightarrow> bool" where
  "cell_le (IntV a) (IntV b) = (a \<le> b)"
| "cell_le (IntV a) c = True"
| "cell_le (StrV s) (StrV t) = str_le s t"
| "cell_le (StrV s) (IntV b) = False"
| "cell_le (StrV s) NaN = True"
| "cell_le NaN c = (c = NaN)"

fun insort_cell :: "cell \<Rightarrow> cell list \<Rightarrow> cell list" where
  "insort_cell k [] = [k]"
| "insort_cell k (c # cs) = (if cell_le k c then k # c # cs else c # insort_cell k cs)"

definition sort_cells :: "cell list \<Rightarrow> cell list" where
  "sort_cells ks = foldr insort_cell ks []"

text \<open>
  \<^verbatim>\<open>df.groupby(key).value.count()\<close> on the two columns: one group for each key that is not
  missing, in ascending order of the keys, with the number of its rows whose value is
  not missing.
\<close>

definition groupby_count :: "cell list \<Rightarrow> cell list \<Rightarrow> (cell \<times> nat) list" where
  "groupby_count keys vals =
     map (\<lambda>g. (g, length (filter (\<lambda>r. fst r = g \<and> snd r \<noteq> NaN) (zip keys vals))))
       (sort_cells (filter (\<lambda>k. k \<noteq> NaN) (unique keys)))"

text \<open>
  The statistics of a series of counts, each followed by \<^verbatim>\<open>.astype(int)\<close> as in the
  script. On an empty series pandas returns the Python float \<^verbatim>\<open>nan\<close>, which has no
  method \<^verbatim>\<open>astype\<close>: AttributeError. Otherwise the cast truncates: the median of an
  even number of values is the truncated mean of the two middle ones, the mean is the
  truncated quotient. (The quotient of the script is a float64; it is exact when the
  sum is below \<open>2 ^ 53\<close>.)
\<close>

definition median_int :: "nat list \<Rightarrow> error + nat" where
  "median_int xs =
     (if xs = [] then Inl (AttributeError ''astype'')
      else let s = sort xs; n = length s in
        if odd n then Inr (s ! (n div 2))
        else Inr ((s ! (n div 2 - 1) + s ! (n div 2)) div 2))"

definition mean_int :: "nat list \<Rightarrow> error + nat" where
  "mean_int xs =
     (if xs = [] then Inl (AttributeError ''astype'') else Inr (sum_list xs div length xs))"

definition max_int :: "nat list \<Rightarrow> error + nat" where
  "max_int xs =
     (case xs of [] \<Rightarrow> Inl (AttributeError ''astype'') | x # r \<Rightarrow> Inr (fold max r x))"

text \<open>
  \<^verbatim>\<open>series.value_counts()\<close>: each value that is not missing with the number of its
  occurrences, in descending order of that number. Equal numbers stay in the order of
  first appearance here; pandas promises no order among them.
\<close>

definition value_counts :: "cell list \<Rightarrow> (cell \<times> nat) list" where
  "value_counts xs =
     sort_key (\<lambda>p. - int (snd p))
       (map (\<lambda>v. (v, count_list xs v)) (filter (\<lambda>v. v \<noteq> NaN) (unique xs)))"

section \<open>Interaction statistics\<close>

text \<open>
  What \<^verbatim>\<open>numpy.histogram\<close> counts for a sequence of bin edges, which is what
  \<^verbatim>\<open>ax.hist(values, bins=edges)\<close> draws: one bin between each two consecutive edges,
  every bin half-open but the last, which includes its right edge.
\<close>

definition hist_heights :: "nat list \<Rightarrow> nat list \<Rightarrow> nat list" where
  "hist_heights vals edges =
     map (\<lambda>j. length (filter (\<lambda>v. edges ! j \<le> v \<and>
                 (v < edges ! (j + 1) \<or> (j + 2 = length edges \<and> v = edges ! (j + 1)))) vals))
       [0..<length edges - 1]"

record histogram =
  bins :: "nat list"
  heights :: "nat list"
  annotation :: "nat \<times> nat \<times> nat"

text \<open>
  \<^verbatim>\<open>user_interaction_histogram(df)\<close>: what is drawn and written to the image, that is
  the bin edges, the height of each bin and the annotated median, mean and maximum. The
  mean of line 89 is the first statistic computed, so it is the one that raises on an
  empty series.
\<close>

definition user_interaction_histogram :: "nat list \<Rightarrow> error + histogram" where
  "user_interaction_histogram df =
     (let bins = sort (unique df); heights = hist_heights df bins in
      ebind (mean_int df) (\<lambda>mean.
      ebind (median_int df) (\<lambda>median.
      ebind (max_int df) (\<lambda>maximum.
      Inr \<lparr>bins = bins, heights = heights, annotation = (median, mean, maximum)\<rparr>))))"

record user_report =
  median_interactions :: nat
  mean_interactions :: nat
  max_interactions :: nat
  plot :: histogram

text \<open>
  \<^verbatim>\<open>user_interactions_statistics(df)\<close>: the three statistics of lines 62 to 64, printed,
  and then the histogram.
\<close>

definition user_interactions_statistics :: "frame \<Rightarrow> error + user_report" where
  "user_interactions_statistics df =
     ebind (getitem_col df ''user_id'') (\<lambda>keys.
     ebind (getattr_col df ''article_id'') (\<lambda>vals.
     let user_interaction_count = map snd (groupby_count keys vals) in
     ebind (median_int user_interaction_count) (\<lambda>median_interactions.
     ebind (mean_int user_interaction_count) (\<lambda>mean_interactions.
     ebind (max_int user_interaction_count) (\<lambda>max_interactions.
     ebind (user_interaction_histogram user_interaction_count) (\<lambda>histogram.
     Inr \<lparr>median_interactions = median_interactions,
          mean_interactions = mean_interactions,
          max_interactions = max_interactions,
          plot = histogram\<rparr>))))))"

section \<open>Article statistics\<close>

text \<open>
  \<^verbatim>\<open>df.drop_duplicates(subset=[key])\<close>, keeping the first row of each key. \<open>first_seen\<close>
  marks the rows whose key has not occurred above them; \<open>select\<close> keeps the marked cells
  of a column.
\<close>

fun first_seen :: "cell list \<Rightarrow> cell list \<Rightarrow> bool list" where
  "first_seen seen [] = []"
| "first_seen seen (k # ks) = (k \<notin> set seen) # first_seen (k # seen) ks"

definition select :: "bool list \<Rightarrow> 'a list \<Rightarrow> 'a list" where
  "select keep c = map snd (filter fst (zip keep c))"

definition drop_duplicates :: "string \<Rightarrow> frame \<Rightarrow> error + frame" where
  "drop_duplicates key df =
     ebind (getitem_col df key) (\<lambda>keys.
     let keep = first_seen [] keys in
     Inr \<lparr>nrows = length (filter id keep),
          cols = map (\<lambda>c. (fst c, select keep (snd c))) (cols df)\<rparr>)"

text \<open>\<^verbatim>\<open>df.set_index(key)\<close>: the key column becomes the index, the other columns stay.\<close>

definition set_index :: "string \<Rightarrow> frame \<Rightarrow> error + (cell list \<times> (string \<times> cell list) list)" where
  "set_index key df =
     ebind (getitem_col df key) (\<lambda>keys.
     Inr (keys, filter (\<lambda>c. fst c \<noteq> key) (cols df)))"

text \<open>
  \<^verbatim>\<open>left.join(right, on=key, how='left')\<close>, where \<open>right\<close> is indexed by \<open>rkeys\<close>. Each row
  of \<open>left\<close> is paired with every row of \<open>right\<close> whose index equals its key, in the order
  of \<open>right\<close>, and with none (the missing value in every column of \<open>right\<close>) when there is
  no such row. pandas raises KeyError when \<open>key\<close> is not a column of \<open>left\<close>, and
  ValueError when one side has text keys and the other numbers (both sides having rows)
  or when a column label occurs on both sides.
\<close>

definition matches :: "cell \<Rightarrow> cell list \<Rightarrow> nat list" where
  "matches k rkeys = filter (\<lambda>j. rkeys ! j = k) [0..<length rkeys]"

definition join_pairs :: "cell list \<Rightarrow> cell list \<Rightarrow> (nat \<times> nat option) list" where
  "join_pairs lkeys rkeys =
     concat (map (\<lambda>i. case matches (lkeys ! i) rkeys of
                         [] \<Rightarrow> [(i, None)]
                       | ms \<Rightarrow> map (\<lambda>j. (i, Some j)) ms)
                [0..<length lkeys])"

definition join_left :: "frame \<Rightarrow> cell list \<times> (string \<times> cell list) list \<Rightarrow> string \<Rightarrow> error + frame" where
  "join_left left right key =
     ebind (getitem_col left key) (\<lambda>lkeys.
     let rkeys = fst right; rcols = snd right in
     if lkeys \<noteq> [] \<and> rkeys \<noteq> [] \<and> has_text lkeys \<noteq> has_text rkeys then Inl ValueError
     else if list_ex (\<lambda>n. n \<in> set (columns left)) (map fst rcols) then Inl ValueError
     else let pairs = join_pairs lkeys rkeys in
       Inr \<lparr>nrows = length pairs,
            cols = map (\<lambda>c. (fst c, map (\<lambda>p. snd c ! fst p) pairs)) (cols left) @
                   map (\<lambda>c. (fst c, map (\<lambda>p. case snd p of None \<Rightarrow> NaN | Some j \<Rightarrow> snd c ! j) pairs))
                     rcols\<rparr>)"

text \<open>
  The two frames are objects that \<^verbatim>\<open>articles_statistics\<close> receives by reference and the
  first of which it changes in place (line 110): a store maps a reference to the frame
  it holds, and the function returns the store it leaves with what it prints.
\<close>

type_synonym ref = nat
type_synonym store = "ref \<Rightarrow> frame"

record article_report =
  number_of_unique_articles :: nat
  number_of_unique_articles_with_interaction :: nat
  number_of_unique_users :: nat
  number_of_user_article_interactions :: nat
  most_viewed_article_id :: cell
  most_viewed_article_views :: nat

text \<open>
  Lines 110 to 114, the processing of the frames: the store it leaves, the joined frame
  \<^verbatim>\<open>df\<close> and the ranking \<^verbatim>\<open>article_popularity\<close>.
\<close>

definition process_frames :: "ref \<Rightarrow> ref \<Rightarrow> store \<Rightarrow> error + (store \<times> frame \<times> (cell \<times> nat) list)" where
  "process_frames articles interactions st0 =
     ebind (drop_duplicates ''article_id'' (st0 articles)) (\<lambda>deduplicated.
     let st = st0(articles := deduplicated) in
     ebind (set_index ''article_id'' (st articles)) (\<lambda>right.
     ebind (join_left (st interactions) right ''article_id'') (\<lambda>df.
     ebind (getattr_col df ''article_id'') (\<lambda>df_article_id.
     Inr (st, df, value_counts df_article_id)))))"

text \<open>
  \<^verbatim>\<open>articles_statistics(articles, interactions)\<close>: the processing, then the six
  statistics of lines 117 to 123. The first row of an empty ranking raises IndexError.
\<close>

definition articles_statistics :: "ref \<Rightarrow> ref \<Rightarrow> store \<Rightarrow> error + (article_report \<times> store)" where
  "articles_statistics articles interactions st0 =
     ebind (process_frames articles interactions st0) (\<lambda>processed.
     let st = fst processed; df = fst (snd processed);
         article_popularity = snd (snd processed) in
     ebind (drop_duplicates ''article_id'' df) (\<lambda>df_unique.
     ebind (getattr_col (st interactions) ''user_id'') (\<lambda>user_id.
     case article_popularity of
       [] \<Rightarrow> Inl IndexError
     | most_viewed # ranking \<Rightarrow>
         Inr (\<lparr>number_of_unique_articles = nrows (st articles),
               number_of_unique_articles_with_interaction = nrows df_unique,
               number_of_unique_users = length (unique user_id),
               number_of_user_article_interactions = nrows (st interactions),
               most_viewed_article_id = fst most_viewed,
               most_viewed_article_views = snd most_viewed\<rparr>, st))))"

section \<open>The pipeline\<close>

text \<open>
  \<^verbatim>\<open>exploratory_analysis()\<close>: the loader creates the two frames, here at the references
  \<open>0\<close> (articles) and \<open>1\<close> (interactions) of a fresh store.
\<close>

definition new_store :: "frame \<Rightarrow> frame \<Rightarrow> store" where
  "new_store articles interactions =
     (\<lambda>r. if r = 0 then articles else if r = 1 then interactions else \<lparr>nrows = 0, cols = []\<rparr>)"

definition exploratory_analysis ::
  "(string \<Rightarrow> error + int) \<Rightarrow> (int \<Rightarrow> int) \<Rightarrow> (string \<rightharpoonup> frame) \<Rightarrow>
     error + (user_report \<times> article_report \<times> store)" where
  "exploratory_analysis py_int wrap files =
     ebind (load_data py_int wrap files) (\<lambda>loaded.
     let st = new_store (fst loaded) (snd loaded) in
     ebind (user_interactions_statistics (st 1)) (\<lambda>report1.
     ebind (articles_statistics 0 1 st) (\<lambda>r. Inr (report1, fst r, snd r))))"

section \<open>Specification of the encoding\<close>

text \<open>
  The encoding as the specification words it: the distinct emails in the order of their
  first appearance are numbered \<open>0, 1, 2, \<dots>\<close>; \<open>index_in us e\<close> is the position of the
  first \<open>e\<close> in \<open>us\<close>.
\<close>

definition index_in :: "'a list \<Rightarrow> 'a \<Rightarrow> int" where
  "index_in us e = int (length (takeWhile (\<lambda>x. x \<noteq> e) us))"

definition first_seen_encoder :: "'a list \<Rightarrow> ('a \<times> int) list" where
  "first_seen_encoder emails = zip (unique emails) (map int [0..<length (unique emails)])"

section \<open>The scenario of the specification\<close>

text \<open>
  The two files of the scenario, as \<^verbatim>\<open>pandas.read_csv\<close> parses them. Each carries the
  unnamed index column that the loader drops; what that column holds is left open.
\<close>

definition scenario_articles :: "cell list \<Rightarrow> frame" where
  "scenario_articles index =
     \<lparr>nrows = 3,
      cols = [(''Unnamed: 0'', index),
              (''article_id'', [IntV 1, IntV 1, IntV 2])]\<rparr>"

definition scenario_interactions :: "cell list \<Rightarrow> frame" where
  "scenario_interactions index =
     \<lparr>nrows = 3,
      cols = [(''Unnamed: 0'', index),
              (''email'', [StrV ''a@x'', StrV ''b@x'', StrV ''a@x'']),
              (''article_id'', [IntV 1, IntV 1, IntV 2])]\<rparr>"

definition scenario_files :: "cell list \<Rightarrow> cell list \<Rightarrow> (string \<rightharpoonup> frame)" where
  "scenario_files index_a index_i =
     [FILE_ARTICLES \<mapsto> scenario_articles index_a,
      FILE_INTERACTIONS \<mapsto> scenario_interactions index_i]"

text \<open>The index column as pandas writes it.\<close>

definition scenario_index :: "cell list" where
  "scenario_index = [IntV 0, IntV 1, IntV 2]"

text \<open>The same files, the interaction log written without its index column.\<close>

definition unindexed_interactions :: frame where
  "unindexed_interactions =
     \<lparr>nrows = 3,
      cols = [(''email'', [StrV ''a@x'', StrV ''b@x'', StrV ''a@x'']),
              (''article_id'', [IntV 1, IntV 1, IntV 2])]\<rparr>"

definition unindexed_files :: "string \<rightharpoonup> frame" where
  "unindexed_files =
     [FILE_ARTICLES \<mapsto> scenario_articles scenario_index,
      FILE_INTERACTIONS \<mapsto> unindexed_interactions]"

text \<open>The same files, no row of the interaction log having an email.\<close>

definition missing_interactions :: frame where
  "missing_interactions =
     \<lparr>nrows = 3,
      cols = [(''Unnamed: 0'', scenario_index),
              (''email'', [NaN, NaN, NaN]),
              (''article_id'', [IntV 1, IntV 1, IntV 2])]\<rparr>"

definition missing_files :: "string \<rightharpoonup> frame" where
  "missing_files =
     [FILE_ARTICLES \<mapsto> scenario_articles scenario_index,
      FILE_INTERACTIONS \<mapsto> missing_interactions]"

text \<open>An interactions table with a single user.\<close>

definition single_user_interactions :: frame where
  "single_user_interactions =
     \<lparr>nrows = 3,
      cols = [(''article_id'', [IntV 1, IntV 1, IntV 2]),
              (''user_id'', [IntV 0, IntV 0, IntV 0])]\<rparr>"

text \<open>
  A store whose interactions table (reference \<open>1\<close>) refers twice to the article \<open>7\<close>,
  which the catalog (reference \<open>0\<close>) does not have.
\<close>

definition example_articles :: frame where
  "example_articles =
     \<lparr>nrows = 3,
      cols = [(''doc_full_name'', [StrV ''first'', StrV ''again'', StrV ''second'']),
              (''article_id'', [IntV 1, IntV 1, IntV 2])]\<rparr>"

definition example_interactions :: frame where
  "example_interactions =
     \<lparr>nrows = 4,
      cols = [(''article_id'', [IntV 1, IntV 7, IntV 7, IntV 2]),
              (''user_id'', [IntV 0, IntV 1, IntV 0, IntV 0])]\<rparr>"

definition example_store :: store where
  "example_store = new_store example_articles example_interactions"

section \<open>The encoding loop\<close>

lemma ebind_Inr_iff: "ebind x f = Inr y \<longleftrightarrow> (\<exists>a. x = Inr a \<and> f a = Inr y)"
  by (cases x) (simp_all add: ebind_def)

lemma ebind_Inr [simp]: "ebind (Inr a) f = f a"
  by (simp add: ebind_def)

lemma ebind_Inl [simp]: "ebind (Inl e) f = Inl e"
  by (simp add: ebind_def)

lemma set_unique [simp]: "set (unique xs) = set xs"
  by (induction xs) auto

lemma distinct_unique [simp]: "distinct (unique xs)"
  by (induction xs) auto

lemma unique_snoc: "unique (xs @ [x]) = (if x \<in> set xs then unique xs else unique xs @ [x])"
  by (induction xs) auto

lemma unique_distinct: "distinct xs \<Longrightarrow> unique xs = xs"
proof (induction xs)
  case Nil
  then show ?case by simp
next
  case (Cons a xs)
  then have "filter (\<lambda>y. y \<noteq> a) xs = xs"
    by (auto intro: filter_True)
  with Cons show ?case by simp
qed

lemma length_unique: "length (unique xs) = card (set xs)"
  using distinct_card [of "unique xs"] by simp

lemma unique_append_prefix: "\<exists>zs. unique (xs @ ys) = unique xs @ zs"
proof (induction ys rule: rev_induct)
  case Nil
  then show ?case by simp
next
  case (snoc y ys)
  then obtain zs where zs: "unique (xs @ ys) = unique xs @ zs" by blast
  have "unique (xs @ ys @ [y]) = unique ((xs @ ys) @ [y])" by simp
  also have "\<dots> = unique xs @ (if y \<in> set (xs @ ys) then zs else zs @ [y])"
    unfolding unique_snoc zs by simp
  finally show ?case by blast
qed

lemma index_in_append: "e \<in> set us \<Longrightarrow> index_in (us @ vs) e = index_in us e"
  by (simp add: index_in_def takeWhile_append1)

lemma index_in_snoc: "e \<notin> set us \<Longrightarrow> index_in (us @ [e]) e = int (length us)"
  unfolding index_in_def by (induction us) auto

lemma index_in_nth: "e \<in> set us \<Longrightarrow> nat (index_in us e) < length us \<and> us ! nat (index_in us e) = e"
  unfolding index_in_def by (induction us) auto

lemma map_of_first_seen_encoder:
  "map_of (first_seen_encoder pre) e = (if e \<in> set pre then Some (index_in (unique pre) e) else None)"
proof (induction pre rule: rev_induct)
  case Nil
  then show ?case by (simp add: first_seen_encoder_def)
next
  case (snoc x pre)
  show ?case
  proof (cases "x \<in> set pre")
    case True
    then have "first_seen_encoder (pre @ [x]) = first_seen_encoder pre"
      by (simp add: first_seen_encoder_def unique_snoc)
    with snoc True show ?thesis by (auto simp: unique_snoc)
  next
    case False
    then have enc: "first_seen_encoder (pre @ [x]) = first_seen_encoder pre @ [(x, int (length (unique pre)))]"
      by (simp add: first_seen_encoder_def unique_snoc)
    show ?thesis
      unfolding enc using snoc False
      by (auto simp: map_add_def unique_snoc index_in_append index_in_snoc split: option.splits)
  qed
qed

lemma email_loop_inv:
  "email_loop xs (int (length (unique pre)), first_seen_encoder pre, map (index_in (unique pre)) pre) =
   Inr (int (length (unique (pre @ xs))), first_seen_encoder (pre @ xs),
        map (index_in (unique (pre @ xs))) (pre @ xs))"
proof (induction xs arbitrary: pre)
  case Nil
  then show ?case by simp
next
  case (Cons x xs)
  have ids: "map (index_in (unique pre @ [x])) pre = map (index_in (unique pre)) pre"
    by (auto simp: index_in_append)
  show ?case
  proof (cases "x \<in> set pre")
    case True
    then have enc: "first_seen_encoder (pre @ [x]) = first_seen_encoder pre"
      and u: "unique (pre @ [x]) = unique pre"
      by (simp_all add: first_seen_encoder_def unique_snoc)
    from True have "email_loop (x # xs) (int (length (unique pre)), first_seen_encoder pre, map (index_in (unique pre)) pre)
        = email_loop xs (int (length (unique (pre @ [x]))), first_seen_encoder (pre @ [x]),
            map (index_in (unique (pre @ [x]))) (pre @ [x]))"
      by (simp add: map_of_first_seen_encoder enc u)
    then show ?thesis using Cons [of "pre @ [x]"] by simp
  next
    case False
    then have enc: "first_seen_encoder (pre @ [x]) = first_seen_encoder pre @ [(x, int (length (unique pre)))]"
      and u: "unique (pre @ [x]) = unique pre @ [x]"
      by (simp_all add: first_seen_encoder_def unique_snoc)
    have look: "map_of (first_seen_encoder (pre @ [x])) x = Some (int (length (unique pre)))"
      using False by (simp add: map_of_first_seen_encoder u index_in_snoc)
    have "email_loop (x # xs) (int (length (unique pre)), first_seen_encoder pre, map (index_in (unique pre)) pre)
        = email_loop xs (int (length (unique (pre @ [x]))), first_seen_encoder (pre @ [x]),
            map (index_in (unique (pre @ [x]))) (pre @ [x]))"
      using False look by (simp add: map_of_first_seen_encoder enc [symmetric] u index_in_snoc ids add.commute)
    then show ?thesis using Cons [of "pre @ [x]"] by simp
  qed
qed

lemma encode_emails_eq:
  "encode_emails emails =
   Inr (int (length (unique emails)), first_seen_encoder emails, map (index_in (unique emails)) emails)"
  using email_loop_inv [of emails "[]"] by (simp add: encode_emails_def first_seen_encoder_def)

section \<open>Frames and the loader\<close>

lemma getattr_col_Inr_iff: "getattr_col df name = Inr c \<longleftrightarrow> map_of (cols df) name = Some c"
  by (simp add: getattr_col_def split: option.splits)

lemma getitem_col_Inr_iff: "getitem_col df name = Inr c \<longleftrightarrow> map_of (cols df) name = Some c"
  by (simp add: getitem_col_def split: option.splits)

lemma map_of_drop: "map_of (filter (\<lambda>c. fst c \<notin> N) cs) n = (if n \<in> N then None else map_of cs n)"
  by (induction cs) auto

lemma drop_columns_Inr_iff:
  "drop_columns names df = Inr df' \<longleftrightarrow>
     set names \<subseteq> set (columns df) \<and> df' = df\<lparr>cols := filter (\<lambda>c. fst c \<notin> set names) (cols df)\<rparr>"
proof -
  have "filter (\<lambda>n. n \<notin> set (columns df)) names = [] \<longleftrightarrow> set names \<subseteq> set (columns df)"
    by (auto simp: filter_empty_conv)
  then show ?thesis
    by (cases "filter (\<lambda>n. n \<notin> set (columns df)) names") (auto simp: drop_columns_def)
qed

lemma drop_columns_Inl:
  "n \<notin> set (columns df) \<Longrightarrow> drop_columns [n] df = Inl (KeyError (StrV n))"
  by (simp add: drop_columns_def)

lemma map_fst_replace_col: "map fst (replace_col n vs cs) = map fst cs"
  by (induction cs) auto

lemma fst_set_replace_col: "fst ` set (replace_col n vs cs) = fst ` set cs"
  using map_fst_replace_col [of n vs cs] by (metis set_map)

lemma map_of_replace_col:
  "map_of (replace_col n vs cs) = (if n \<in> fst ` set cs then (map_of cs)(n \<mapsto> vs) else map_of cs)"
  by (induction cs) (auto simp: fun_eq_iff)

lemma list_all_replace_col:
  "list_all (\<lambda>c. length (snd c) = k) cs \<Longrightarrow> length vs = k \<Longrightarrow>
   list_all (\<lambda>c. length (snd c) = k) (replace_col n vs cs)"
  by (induction cs) auto

lemma set_column_Inr:
  assumes "set_column n vs df = Inr df'"
  shows "nrows df' = nrows df" and "length vs = nrows df"
    and "map_of (cols df') = (map_of (cols df))(n \<mapsto> vs)"
    and "set (columns df') = insert n (set (columns df))"
    and "frame_ok df \<Longrightarrow> frame_ok df'"
proof -
  from assms have len: "length vs = nrows df"
    by (auto simp: set_column_def split: if_splits)
  show "length vs = nrows df" by (rule len)
  from assms len have d: "df' = (if n \<in> set (columns df)
      then df\<lparr>cols := replace_col n vs (cols df)\<rparr> else df\<lparr>cols := cols df @ [(n, vs)]\<rparr>)"
    by (auto simp: set_column_def split: if_splits)
  show "nrows df' = nrows df" by (simp add: d)
  show "map_of (cols df') = (map_of (cols df))(n \<mapsto> vs)"
  proof (cases "n \<in> set (columns df)")
    case True
    then show ?thesis by (simp add: d columns_def map_of_replace_col)
  next
    case False
    then have "map_of (cols df) n = None"
      by (simp add: columns_def map_of_eq_None_iff)
    then show ?thesis using False by (auto simp: d fun_eq_iff map_add_def split: option.splits)
  qed
  show "set (columns df') = insert n (set (columns df))"
    by (auto simp: d columns_def fst_set_replace_col)
  show "frame_ok df'" if "frame_ok df"
    using that len by (auto simp: d frame_ok_def columns_def map_fst_replace_col list_all_replace_col)
qed

lemma set_column_total: "length vs = nrows df \<Longrightarrow> \<exists>df'. set_column n vs df = Inr df'"
  by (simp add: set_column_def)

lemma drop_columns_frame_ok: "drop_columns names df = Inr df' \<Longrightarrow> frame_ok df \<Longrightarrow> frame_ok df'"
  by (auto simp: drop_columns_Inr_iff frame_ok_def distinct_map_filter list_all_iff)

lemma length_astype_int: "astype_int py_int wrap cs = Inr ids \<Longrightarrow> length ids = length cs"
  by (induction cs arbitrary: ids) (auto split: option.splits sum.splits)

lemma astype_int_ints: "astype_int py_int wrap cs = Inr ids \<Longrightarrow> \<forall>c\<in>set ids. \<exists>i. c = IntV i"
  by (induction cs arbitrary: ids) (auto split: option.splits sum.splits)

lemma map_of_drop1: "map_of (filter (\<lambda>c. fst c \<noteq> k) cs) n = (if n = k then None else map_of cs n)"
  by (induction cs) auto

lemma drop_columns_columns:
  "drop_columns names df = Inr df' \<Longrightarrow> set (columns df') = set (columns df) - set names"
  by (auto simp: drop_columns_Inr_iff columns_def)


lemma length_series_iter [simp]: "length (series_iter col) = length col"
  by (simp add: series_iter_def)

lemma series_iter_nth:
  "i < length col \<Longrightarrow>
   series_iter col ! i =
     (if \<not> has_text col \<and> col ! i = NaN then FloatNaN i else Obj (col ! i))"
  by (simp add: series_iter_def)

lemma series_iter_eq_iff:
  assumes "i < length col" and "j < length col"
  shows "(series_iter col ! i = series_iter col ! j) =
         (i = j \<or> (col ! i = col ! j \<and> (col ! i = NaN \<longrightarrow> has_text col)))"
  using assms by (auto simp: series_iter_nth)

lemma series_iter_plain:
  assumes "has_text col \<or> NaN \<notin> set col"
  shows "series_iter col = map Obj col"
proof (cases "has_text col")
  case True
  then show ?thesis by (simp add: series_iter_def)
next
  case False
  with assms have n: "NaN \<notin> set col" by simp
  have "(if snd r = NaN then FloatNaN (fst r) else Obj (snd r)) = Obj (snd r)"
    if "r \<in> set (zip [0..<length col] col)" for r
  proof -
    obtain a b where r: "r = (a, b)" by (cases r)
    with that have "b \<in> set col" by (auto dest: set_zip_rightD)
    with n r show ?thesis by auto
  qed
  then have "map (\<lambda>r. if snd r = NaN then FloatNaN (fst r) else Obj (snd r)) (zip [0..<length col] col)
      = map (\<lambda>r. Obj (snd r)) (zip [0..<length col] col)"
    by (intro map_cong refl)
  also have "\<dots> = map Obj (map snd (zip [0..<length col] col))"
    by (simp only: map_map comp_def)
  also have "\<dots> = map Obj col" by (simp add: map_snd_zip)
  finally show ?thesis using False by (simp add: series_iter_def)
qed

lemma card_series_iter_plain:
  assumes "has_text col \<or> NaN \<notin> set col"
  shows "card (set (series_iter col)) = card (set col)"
proof -
  have "card (Obj ` set col) = card (set col)"
    by (rule card_image) (simp add: inj_on_def)
  then show ?thesis by (simp add: series_iter_plain [OF assms])
qed

lemma set_series_iter_numeric:
  assumes "\<not> has_text col"
  shows "set (series_iter col) =
         Obj ` (set col - {NaN}) \<union> FloatNaN ` {i. i < length col \<and> col ! i = NaN}"
proof (intro set_eqI iffI)
  fix k assume "k \<in> set (series_iter col)"
  then obtain i where i: "i < length col" and k: "k = series_iter col ! i"
    by (auto simp: in_set_conv_nth)
  show "k \<in> Obj ` (set col - {NaN}) \<union> FloatNaN ` {i. i < length col \<and> col ! i = NaN}"
  proof (cases "col ! i = NaN")
    case True
    with i k assms have "k = FloatNaN i" by (simp add: series_iter_nth)
    with i True show ?thesis by blast
  next
    case False
    with i k assms have "k = Obj (col ! i)" by (simp add: series_iter_nth)
    moreover from i have "col ! i \<in> set col" by (rule nth_mem)
    ultimately show ?thesis using False by blast
  qed
next
  fix k assume "k \<in> Obj ` (set col - {NaN}) \<union> FloatNaN ` {i. i < length col \<and> col ! i = NaN}"
  then consider c where "k = Obj c" "c \<in> set col" "c \<noteq> NaN"
    | i where "k = FloatNaN i" "i < length col" "col ! i = NaN"
    by blast
  then show "k \<in> set (series_iter col)"
  proof cases
    case 1
    then obtain i where i: "i < length col" and c: "col ! i = c"
      by (auto simp: in_set_conv_nth)
    with 1 assms have "series_iter col ! i = k" by (simp add: series_iter_nth)
    with i show ?thesis by (metis length_series_iter nth_mem)
  next
    case 2
    with assms have "series_iter col ! i = k" by (simp add: series_iter_nth)
    with 2 show ?thesis by (metis length_series_iter nth_mem)
  qed
qed

lemma card_series_iter_numeric:
  assumes "\<not> has_text col"
  shows "card (set (series_iter col)) = card (set col - {NaN}) + count_list col NaN"
proof -
  let ?A = "Obj ` (set col - {NaN})" and ?B = "FloatNaN ` {i. i < length col \<and> col ! i = NaN}"
  have "card (?A \<union> ?B) = card ?A + card ?B"
    by (rule card_Un_disjoint) auto
  moreover have "card ?A = card (set col - {NaN})"
    by (rule card_image) (simp add: inj_on_def)
  moreover have "card ?B = card {i. i < length col \<and> col ! i = NaN}"
    by (rule card_image) (simp add: inj_on_def)
  moreover have "count_list col NaN = card {i. i < length col \<and> col ! i = NaN}"
    by (simp add: count_list_eq_length_filter length_filter_conv_card eq_commute)
  ultimately show ?thesis
    by (simp add: set_series_iter_numeric [OF assms])
qed

lemma load_data_Inr:
  assumes "load_data py_int wrap files = Inr (articles, interactions)"
  shows "\<exists>a0 i0 ids0 ids emails.
     files FILE_ARTICLES = Some a0 \<and> files FILE_INTERACTIONS = Some i0 \<and>
     ''Unnamed: 0'' \<in> set (columns a0) \<and> ''Unnamed: 0'' \<in> set (columns i0) \<and>
     articles = a0\<lparr>cols := filter (\<lambda>c. fst c \<notin> set [''Unnamed: 0'']) (cols a0)\<rparr> \<and>
     map_of (cols i0) ''article_id'' = Some ids0 \<and> astype_int py_int wrap ids0 = Inr ids \<and>
     map_of (cols i0) ''email'' = Some emails \<and>
     length ids = nrows i0 \<and> length emails = nrows i0 \<and> nrows interactions = nrows i0 \<and>
     map_of (cols interactions) =
       ((map_of (cols i0))(''Unnamed: 0'' := None, ''article_id'' \<mapsto> ids, ''email'' := None,
          ''user_id'' \<mapsto> map (IntV \<circ> index_in (unique (series_iter emails))) (series_iter emails))) \<and>
     set (columns interactions) =
       insert ''user_id'' (set (columns i0) - {''Unnamed: 0'', ''email''}) \<and>
     (frame_ok i0 \<longrightarrow> frame_ok interactions)"
proof -
  from assms obtain a0 i0 i1 ids0 ids i2 emails i3 where
    a0: "files FILE_ARTICLES = Some a0" and
    da: "drop_columns [''Unnamed: 0''] a0 = Inr articles" and
    i0: "files FILE_INTERACTIONS = Some i0" and
    di: "drop_columns [''Unnamed: 0''] i0 = Inr i1" and
    g1: "getattr_col i1 ''article_id'' = Inr ids0" and
    as: "astype_int py_int wrap ids0 = Inr ids" and
    s1: "set_column ''article_id'' ids i1 = Inr i2" and
    g2: "getattr_col i2 ''email'' = Inr emails" and
    d2: "drop_columns [''email''] i2 = Inr i3" and
    s2: "set_column ''user_id'' (map IntV (map (index_in (unique (series_iter emails))) (series_iter emails))) i3 = Inr interactions"
    unfolding load_data_def read_csv_def
    by (auto simp: ebind_Inr_iff encode_emails_eq split: option.splits)
  note S1 = set_column_Inr [OF s1] and S2 = set_column_Inr [OF s2]
  from di have i1: "i1 = i0\<lparr>cols := filter (\<lambda>c. fst c \<notin> set [''Unnamed: 0'']) (cols i0)\<rparr>"
    and u1: "''Unnamed: 0'' \<in> set (columns i0)"
    by (simp_all add: drop_columns_Inr_iff)
  from d2 have i3: "i3 = i2\<lparr>cols := filter (\<lambda>c. fst c \<notin> set [''email'']) (cols i2)\<rparr>"
    by (simp add: drop_columns_Inr_iff)
  from da have art: "articles = a0\<lparr>cols := filter (\<lambda>c. fst c \<notin> set [''Unnamed: 0'']) (cols a0)\<rparr>"
    and u0: "''Unnamed: 0'' \<in> set (columns a0)"
    by (simp_all add: drop_columns_Inr_iff)
  have m1: "map_of (cols i1) = (map_of (cols i0))(''Unnamed: 0'' := None)"
    by (auto simp: i1 map_of_drop1 fun_eq_iff)
  have m3: "map_of (cols i3) = (map_of (cols i2))(''email'' := None)"
    by (auto simp: i3 map_of_drop1 fun_eq_iff)
  from g1 have c1: "map_of (cols i0) ''article_id'' = Some ids0"
    by (simp add: getattr_col_Inr_iff m1)
  from g2 have c2: "map_of (cols i0) ''email'' = Some emails"
    by (simp add: getattr_col_Inr_iff S1(3) m1)
  have n1: "nrows i1 = nrows i0" by (simp add: i1)
  have n3: "nrows i3 = nrows i2" by (simp add: i3)
  have mm: "map_of (cols interactions) =
       ((map_of (cols i0))(''Unnamed: 0'' := None, ''article_id'' \<mapsto> ids, ''email'' := None,
          ''user_id'' \<mapsto> map (IntV \<circ> index_in (unique (series_iter emails))) (series_iter emails)))"
    by (simp add: S2(3) m3 S1(3) m1)
  have cc: "set (columns interactions) = insert ''user_id'' (set (columns i0) - {''Unnamed: 0'', ''email''})"
  proof -
    have "''article_id'' \<in> set (columns i0)"
      using c1 by (metis columns_def map_of_eq_None_iff option.distinct(1) set_map)
    then show ?thesis
      unfolding S2(4) drop_columns_columns [OF d2] S1(4) drop_columns_columns [OF di] by auto
  qed
  have ok: "frame_ok interactions" if "frame_ok i0"
    using that S2(5) drop_columns_frame_ok [OF d2] S1(5) drop_columns_frame_ok [OF di] by blast
  from S2(2) have le: "length emails = nrows i0"
    by (simp add: n3 S1(1) n1)
  show ?thesis
    using a0 i0 u0 u1 art c1 as c2 S1(2) le S2(1) mm cc ok
    by (simp add: n1 n3 S1(1))
qed

lemma scenario_load:
  "load_data py_int wrap (scenario_files index_a index_i) =
     Inr (\<lparr>nrows = 3, cols = [(''article_id'', [IntV 1, IntV 1, IntV 2])]\<rparr>,
          \<lparr>nrows = 3, cols = [(''article_id'', [IntV 1, IntV 1, IntV 2]),
                              (''user_id'', [IntV 0, IntV 1, IntV 0])]\<rparr>)"
  by (simp add: load_data_def read_csv_def scenario_files_def scenario_articles_def
      scenario_interactions_def FILE_ARTICLES_def FILE_INTERACTIONS_def drop_columns_def
      columns_def getattr_col_def set_column_def encode_emails_def series_iter_def
      has_text_def)

lemma index_in_inj: "a \<in> set us \<Longrightarrow> b \<in> set us \<Longrightarrow> index_in us a = index_in us b \<Longrightarrow> a = b"
  using index_in_nth [of a us] index_in_nth [of b us] by metis

lemma first_seen_encoder_nth:
  "k < length (unique emails) \<Longrightarrow> map_of (first_seen_encoder emails) (unique emails ! k) = Some (int k)"
proof -
  assume k: "k < length (unique emails)"
  let ?us = "unique emails"
  have "map_of (zip ?us (map int [0..<length ?us])) (?us ! k) = Some (map int [0..<length ?us] ! k)"
    using k by (intro map_of_zip_nth) simp_all
  then show ?thesis using k by (simp add: first_seen_encoder_def)
qed


lemma missing_load:
  "load_data py_int wrap missing_files =
     Inr (\<lparr>nrows = 3, cols = [(''article_id'', [IntV 1, IntV 1, IntV 2])]\<rparr>,
          \<lparr>nrows = 3, cols = [(''article_id'', [IntV 1, IntV 1, IntV 2]),
                              (''user_id'', [IntV 0, IntV 1, IntV 2])]\<rparr>)"
  by (simp add: load_data_def read_csv_def missing_files_def scenario_articles_def
      missing_interactions_def FILE_ARTICLES_def FILE_INTERACTIONS_def drop_columns_def
      columns_def getattr_col_def set_column_def encode_emails_def series_iter_def
      has_text_def scenario_index_def)

lemma unique_map_inj: "inj f \<Longrightarrow> unique (map f xs) = map f (unique xs)"
proof (induction xs)
  case Nil
  then show ?case by simp
next
  case (Cons x xs)
  then have "filter (\<lambda>y. y \<noteq> f x) (map f (unique xs)) = map f (filter (\<lambda>y. y \<noteq> x) (unique xs))"
    by (simp add: filter_map comp_def inj_eq)
  with Cons show ?case by simp
qed

lemma index_in_map_inj: "inj f \<Longrightarrow> index_in (map f us) (f e) = index_in us e"
proof -
  assume "inj f"
  then have "takeWhile (\<lambda>x. x \<noteq> f e) (map f us) = map f (takeWhile (\<lambda>x. x \<noteq> e) us)"
    by (simp add: takeWhile_map comp_def inj_eq)
  then show ?thesis by (simp add: index_in_def)
qed

lemma ids_plain:
  assumes "has_text emails \<or> NaN \<notin> set emails"
  shows "map (index_in (unique (series_iter emails))) (series_iter emails) =
         map (index_in (unique emails)) emails"
proof -
  have i: "inj Obj" by (simp add: inj_on_def)
  show ?thesis
    by (simp add: series_iter_plain [OF assms] unique_map_inj [OF i] index_in_map_inj [OF i] comp_def)
qed




lemma email_loop_append:
  "email_loop (xs @ ys) s = ebind (email_loop xs s) (email_loop ys)"
proof (induction xs arbitrary: s)
  case Nil
  then show ?case by simp
next
  case (Cons x xs)
  obtain n enc ids where s: "s = (n, enc, ids)" by (cases s)
  show ?case
    unfolding s using Cons by (simp add: Let_def split: option.splits)
qed

lemma first_seen_encoder_prefix:
  "\<exists>rest. first_seen_encoder (xs @ ys) = first_seen_encoder xs @ rest"
proof -
  obtain zs where zs: "unique (xs @ ys) = unique xs @ zs"
    using unique_append_prefix by blast
  have "zip (unique xs @ zs) (map int [0..<length (unique xs) + length zs]) =
        zip (unique xs) (map int [0..<length (unique xs)]) @
        zip zs (map int [length (unique xs)..<length (unique xs) + length zs])"
  proof -
    have "[0..<length (unique xs) + length zs] =
          [0..<length (unique xs)] @ [length (unique xs)..<length (unique xs) + length zs]"
      using upt_add_eq_append [of 0 "length (unique xs)" "length zs"] by simp
    then show ?thesis by (simp only: map_append) simp
  qed
  then show ?thesis
    by (auto simp: first_seen_encoder_def zs)
qed

lemma map_fst_first_seen_encoder: "map fst (first_seen_encoder emails) = unique emails"
  by (simp add: first_seen_encoder_def)

lemma card_user_ids:
  "card (set (map (IntV \<circ> index_in (unique emails)) emails)) = card (set emails)"
proof -
  have "inj_on (IntV \<circ> index_in (unique emails)) (set emails)"
    by (auto simp: inj_on_def dest: index_in_inj [of _ "unique emails", simplified])
  then have "card ((IntV \<circ> index_in (unique emails)) ` set emails) = card (set emails)"
    by (rule card_image)
  then show ?thesis by (simp only: set_map)
qed





lemma load_data_total:
  assumes a0: "files FILE_ARTICLES = Some a0" and i0: "files FILE_INTERACTIONS = Some i0"
    and ua: "''Unnamed: 0'' \<in> set (columns a0)" and ui: "''Unnamed: 0'' \<in> set (columns i0)"
    and c1: "map_of (cols i0) ''article_id'' = Some ids0"
    and as: "astype_int py_int wrap ids0 = Inr ids"
    and c2: "map_of (cols i0) ''email'' = Some emails"
    and l1: "length ids0 = nrows i0" and l2: "length emails = nrows i0"
  shows "\<exists>articles interactions. load_data py_int wrap files = Inr (articles, interactions)"
proof -
  let ?i1 = "i0\<lparr>cols := filter (\<lambda>c. fst c \<noteq> ''Unnamed: 0'') (cols i0)\<rparr>"
  have d1: "drop_columns [''Unnamed: 0''] i0 = Inr ?i1"
    using ui by (simp add: drop_columns_Inr_iff)
  have da: "\<exists>a. drop_columns [''Unnamed: 0''] a0 = Inr a"
    using ua by (simp add: drop_columns_Inr_iff)
  have g1: "getattr_col ?i1 ''article_id'' = Inr ids0"
    using c1 by (simp add: getattr_col_Inr_iff map_of_drop1)
  have "length ids = nrows ?i1"
    using length_astype_int [OF as] l1 by simp
  then obtain i2 where s1: "set_column ''article_id'' ids ?i1 = Inr i2"
    using set_column_total by blast
  note S1 = set_column_Inr [OF s1]
  have g2: "getattr_col i2 ''email'' = Inr emails"
    using c2 by (simp add: getattr_col_Inr_iff S1(3) map_of_drop1)
  then have "''email'' \<in> set (columns i2)"
    by (metis columns_def getattr_col_Inr_iff map_of_eq_None_iff option.distinct(1) set_map)
  then obtain i3 where d2: "drop_columns [''email''] i2 = Inr i3"
    by (simp add: drop_columns_Inr_iff)
  then have "nrows i3 = nrows i0"
    using S1(1) by (auto simp: drop_columns_Inr_iff)
  then have "length (map (IntV \<circ> index_in (unique (series_iter emails))) (series_iter emails)) = nrows i3"
    using l2 by simp
  then obtain i where s2: "set_column ''user_id'' (map (IntV \<circ> index_in (unique (series_iter emails))) (series_iter emails)) i3 = Inr i"
    using set_column_total by blast
  from da obtain a where da': "drop_columns [''Unnamed: 0''] a0 = Inr a" by blast
  have "load_data py_int wrap files = Inr (a, i)"
    unfolding load_data_def read_csv_def
    by (simp add: a0 i0 da' d1 g1 as s1 g2 encode_emails_eq d2 s2)
  then show ?thesis by blast
qed

text \<open>
  Claim C9. With both files readable: when either of them lacks the column
  \<open>Unnamed: 0\<close>, one of the two column drops raises KeyError for that label, the loader
  fails with that very error, and so does the whole analysis, which therefore returns
  no encoding and no statistics (nothing is assumed about any other column); when both
  files have the column, neither drop fails.
\<close>

theorem C9_missing_index_column:
  assumes "files FILE_ARTICLES = Some a0" and "files FILE_INTERACTIONS = Some i0"
  shows "(''Unnamed: 0'' \<notin> set (columns a0) \<or> ''Unnamed: 0'' \<notin> set (columns i0) \<longrightarrow>
            (drop_columns [''Unnamed: 0''] a0 = Inl (KeyError (StrV ''Unnamed: 0'')) \<or>
             drop_columns [''Unnamed: 0''] i0 = Inl (KeyError (StrV ''Unnamed: 0''))) \<and>
            load_data py_int wrap files = Inl (KeyError (StrV ''Unnamed: 0'')) \<and>
            exploratory_analysis py_int wrap files = Inl (KeyError (StrV ''Unnamed: 0''))) \<and>
         (''Unnamed: 0'' \<in> set (columns a0) \<and> ''Unnamed: 0'' \<in> set (columns i0) \<longrightarrow>
            (\<exists>articles. drop_columns [''Unnamed: 0''] a0 = Inr articles) \<and>
            (\<exists>interactions. drop_columns [''Unnamed: 0''] i0 = Inr interactions))"
proof (intro conjI impI)
  assume m: "''Unnamed: 0'' \<notin> set (columns a0) \<or> ''Unnamed: 0'' \<notin> set (columns i0)"
  then show "drop_columns [''Unnamed: 0''] a0 = Inl (KeyError (StrV ''Unnamed: 0'')) \<or>
             drop_columns [''Unnamed: 0''] i0 = Inl (KeyError (StrV ''Unnamed: 0''))"
    using drop_columns_Inl by blast
  show l: "load_data py_int wrap files = Inl (KeyError (StrV ''Unnamed: 0''))"
  proof (cases "''Unnamed: 0'' \<in> set (columns a0)")
    case False
    then show ?thesis
      unfolding load_data_def read_csv_def by (simp add: assms drop_columns_Inl)
  next
    case True
    then obtain a where "drop_columns [''Unnamed: 0''] a0 = Inr a"
      by (simp add: drop_columns_Inr_iff)
    moreover from True m have "drop_columns [''Unnamed: 0''] i0 = Inl (KeyError (StrV ''Unnamed: 0''))"
      by (simp add: drop_columns_Inl)
    ultimately show ?thesis
      unfolding load_data_def read_csv_def by (simp add: assms)
  qed
  show "exploratory_analysis py_int wrap files = Inl (KeyError (StrV ''Unnamed: 0''))"
    unfolding exploratory_analysis_def l by simp
next
  assume "''Unnamed: 0'' \<in> set (columns a0) \<and> ''Unnamed: 0'' \<in> set (columns i0)"
  then show "\<exists>articles. drop_columns [''Unnamed: 0''] a0 = Inr articles"
    and "\<exists>interactions. drop_columns [''Unnamed: 0''] i0 = Inr interactions"
    by (simp_all add: drop_columns_Inr_iff)
qed

theorem C9_missing_index_column_witness:
  "load_data (\<lambda>s. Inl ValueError) (\<lambda>i. i) unindexed_files = Inl (KeyError (StrV ''Unnamed: 0'')) \<and>
   exploratory_analysis (\<lambda>s. Inl ValueError) (\<lambda>i. i) unindexed_files = Inl (KeyError (StrV ''Unnamed: 0'')) \<and>
   (\<exists>articles. drop_columns [''Unnamed: 0''] (scenario_articles scenario_index) = Inr articles) \<and>
   (\<exists>interactions. drop_columns [''Unnamed: 0''] (scenario_interactions scenario_index) = Inr interactions)"
proof -
  have a: "unindexed_files FILE_ARTICLES = Some (scenario_articles scenario_index)"
    and i: "unindexed_files FILE_INTERACTIONS = Some unindexed_interactions"
    by (simp_all add: unindexed_files_def FILE_ARTICLES_def FILE_INTERACTIONS_def)
  have a': "scenario_files scenario_index scenario_index FILE_ARTICLES = Some (scenario_articles scenario_index)"
    and i': "scenario_files scenario_index scenario_index FILE_INTERACTIONS = Some (scenario_interactions scenario_index)"
    by (simp_all add: scenario_files_def FILE_ARTICLES_def FILE_INTERACTIONS_def)
  have m: "''Unnamed: 0'' \<notin> set (columns unindexed_interactions)"
    by (simp add: columns_def unindexed_interactions_def)
  have p: "''Unnamed: 0'' \<in> set (columns (scenario_articles scenario_index)) \<and>
           ''Unnamed: 0'' \<in> set (columns (scenario_interactions scenario_index))"
    by (simp add: columns_def scenario_articles_def scenario_interactions_def)
  show ?thesis
    using C9_missing_index_column [OF a i, of "\<lambda>s. Inl ValueError" "\<lambda>i. i"] m
      C9_missing_index_column [OF a' i', of "\<lambda>s. Inl ValueError" "\<lambda>i. i"] p
    by blast
qed

section \<open>Deduplication\<close>

lemma first_seen_distinct:
  "distinct ks \<Longrightarrow> set ks \<inter> set seen = {} \<Longrightarrow> first_seen seen ks = replicate (length ks) True"
  by (induction ks arbitrary: seen) auto

lemma select_Nil [simp]: "select [] c = []" "select keep [] = []"
  by (simp_all add: select_def)

lemma select_Cons [simp]:
  "select (b # keep) (x # c) = (if b then x # select keep c else select keep c)"
  by (simp add: select_def)

lemma select_all: "length c \<le> n \<Longrightarrow> select (replicate n True) c = c"
proof (induction c arbitrary: n)
  case Nil
  then show ?case by simp
next
  case (Cons x c)
  then obtain m where "n = Suc m" by (cases n) auto
  with Cons show ?case by simp
qed

lemma length_select: "length keep = length c \<Longrightarrow> length (select keep c) = length (filter id keep)"
  by (induction keep c rule: list_induct2) auto

lemma length_first_seen [simp]: "length (first_seen seen ks) = length ks"
  by (induction ks arbitrary: seen) auto

lemma select_first_seen:
  "select (first_seen seen ks) ks = filter (\<lambda>k. k \<notin> set seen) (unique ks)"
proof (induction ks arbitrary: seen)
  case Nil
  then show ?case by simp
next
  case (Cons k ks)
  have "filter (\<lambda>x. x \<noteq> k \<and> x \<notin> set seen) (unique ks) =
        filter (\<lambda>x. x \<notin> set seen \<and> x \<noteq> k) (unique ks)"
    by (rule filter_cong) auto
  with Cons [of "k # seen"] show ?case by (auto intro: filter_cong)
qed

lemma dedup_keys: "select (first_seen [] ks) ks = unique ks"
  by (simp add: select_first_seen)

lemma map_of_map_snd:
  "map_of (map (\<lambda>c. (fst c, f (snd c))) cs) n = map_option f (map_of cs n)"
  by (induction cs) auto

lemma frame_ok_column: "frame_ok df \<Longrightarrow> map_of (cols df) n = Some c \<Longrightarrow> length c = nrows df"
  by (auto simp: frame_ok_def list_all_iff dest: map_of_SomeD)

lemma frame_eq: "nrows df = n \<Longrightarrow> cols df = cs \<Longrightarrow> \<lparr>nrows = n, cols = cs\<rparr> = df"
  by (cases df) auto

lemma drop_duplicates_Inr:
  assumes "drop_duplicates key df = Inr df'"
  shows "\<exists>keys. map_of (cols df) key = Some keys \<and> map_of (cols df') key = Some (unique keys) \<and>
           columns df' = columns df \<and>
           (frame_ok df \<longrightarrow> frame_ok df' \<and> nrows df' = length (unique keys))"
proof -
  from assms obtain keys where k: "map_of (cols df) key = Some keys"
    and d: "df' = \<lparr>nrows = length (filter id (first_seen [] keys)),
               cols = map (\<lambda>c. (fst c, select (first_seen [] keys) (snd c))) (cols df)\<rparr>"
    by (auto simp: drop_duplicates_def ebind_Inr_iff getitem_col_Inr_iff Let_def)
  have n: "length (filter id (first_seen [] keys)) = length (unique keys)"
    using length_select [of "first_seen [] keys" keys] by (simp add: dedup_keys)
  have 1: "map_of (cols df') key = Some (unique keys)"
    by (simp add: d map_of_map_snd k dedup_keys)
  have 2: "columns df' = columns df"
    by (simp add: d columns_def comp_def)
  have 3: "frame_ok df'" if ok: "frame_ok df"
  proof -
    have "length (select (first_seen [] keys) c) = length (unique keys)"
      if "(m, c) \<in> set (cols df)" for m c
    proof -
      from ok that have "length c = nrows df"
        by (auto simp: frame_ok_def list_all_iff)
      moreover from ok k have "length keys = nrows df" by (rule frame_ok_column)
      ultimately show ?thesis
        using length_select [of "first_seen [] keys" c] n by simp
    qed
    then show ?thesis
      using ok 2 by (auto simp: frame_ok_def d n list_all_iff columns_def comp_def)
  qed
  from k 1 2 3 n show ?thesis by (auto simp: d)
qed

lemma drop_duplicates_total:
  "map_of (cols df) key = Some keys \<Longrightarrow> \<exists>df'. drop_duplicates key df = Inr df'"
  by (simp add: drop_duplicates_def getitem_col_def Let_def)

lemma drop_duplicates_distinct:
  assumes ok: "frame_ok df" and k: "map_of (cols df) key = Some keys" and d: "distinct keys"
  shows "drop_duplicates key df = Inr df"
proof -
  have fs: "first_seen [] keys = replicate (length keys) True"
    using d by (simp add: first_seen_distinct)
  have len: "length keys = nrows df" using ok k by (rule frame_ok_column)
  have "map (\<lambda>c. (fst c, select (replicate (length keys) True) (snd c))) (cols df) = map (\<lambda>c. c) (cols df)"
  proof (rule map_cong [OF refl])
    fix c assume "c \<in> set (cols df)"
    with ok have "length (snd c) \<le> length keys"
      by (auto simp: frame_ok_def list_all_iff len)
    then show "(fst c, select (replicate (length keys) True) (snd c)) = c"
      by (simp add: select_all)
  qed
  then show ?thesis
    using k len by (simp add: drop_duplicates_def getitem_col_def fs frame_eq Let_def)
qed

text \<open>
  Claim C6. On a well-formed article table, the deduplication of line 110 leaves a
  table without duplicate \<open>article_id\<close> values exactly as it is; and whatever the
  table, deduplicating the deduplicated table changes nothing.
\<close>

theorem C6_drop_duplicates_idempotent:
  assumes "frame_ok articles" and "getitem_col articles ''article_id'' = Inr ids"
  shows "(distinct ids \<longrightarrow> drop_duplicates ''article_id'' articles = Inr articles) \<and>
         (\<exists>deduplicated. drop_duplicates ''article_id'' articles = Inr deduplicated \<and>
            drop_duplicates ''article_id'' deduplicated = Inr deduplicated)"
proof -
  from assms(2) have k: "map_of (cols articles) ''article_id'' = Some ids"
    by (simp add: getitem_col_Inr_iff)
  then obtain d where d: "drop_duplicates ''article_id'' articles = Inr d"
    using drop_duplicates_total by blast
  from drop_duplicates_Inr [OF d] k assms(1)
  have m: "map_of (cols d) ''article_id'' = Some (unique ids)" and ok: "frame_ok d" by auto
  have "drop_duplicates ''article_id'' d = Inr d"
    using ok m distinct_unique by (rule drop_duplicates_distinct)
  with d show ?thesis
    using drop_duplicates_distinct [OF assms(1) k] by blast
qed

theorem C6_drop_duplicates_idempotent_witness:
  "frame_ok \<lparr>nrows = 2, cols = [(''article_id'', [IntV 1, IntV 2])]\<rparr> \<and>
   getitem_col \<lparr>nrows = 2, cols = [(''article_id'', [IntV 1, IntV 2])]\<rparr> ''article_id'' =
     Inr [IntV 1, IntV 2] \<and>
   distinct [IntV 1, IntV 2] \<and>
   drop_duplicates ''article_id'' \<lparr>nrows = 2, cols = [(''article_id'', [IntV 1, IntV 2])]\<rparr> =
     Inr \<lparr>nrows = 2, cols = [(''article_id'', [IntV 1, IntV 2])]\<rparr>"
proof -
  let ?a = "\<lparr>nrows = 2, cols = [(''article_id'', [IntV 1, IntV 2])]\<rparr>"
  have ok: "frame_ok ?a" by (simp add: frame_ok_def)
  have g: "getitem_col ?a ''article_id'' = Inr [IntV 1, IntV 2]"
    by (simp add: getitem_col_def)
  have d: "distinct [IntV 1, IntV 2]" by simp
  from C6_drop_duplicates_idempotent [OF ok g] d
  have "drop_duplicates ''article_id'' ?a = Inr ?a" by blast
  with ok g d show ?thesis by blast
qed


section \<open>The histogram and the statistics of one user\<close>

lemma sort_unique: "sort (unique xs) = sorted_list_of_set (set xs)"
  by (rule sorted_distinct_set_unique) simp_all

lemma length_hist_heights [simp]: "length (hist_heights vals edges) = length edges - 1"
  by (simp add: hist_heights_def)

lemma stats_nonempty:
  assumes "xs \<noteq> []"
  shows "\<exists>m. median_int xs = Inr m" and "\<exists>m. mean_int xs = Inr m" and "\<exists>m. max_int xs = Inr m"
  using assms by (simp_all add: median_int_def mean_int_def max_int_def Let_def split: list.splits)

lemma user_interaction_histogram_nonempty:
  assumes "df \<noteq> []"
  shows "\<exists>a. user_interaction_histogram df =
     Inr \<lparr>bins = sort (unique df), heights = hist_heights df (sort (unique df)), annotation = a\<rparr>"
proof -
  from stats_nonempty [OF assms] obtain me mn mx where
    "median_int df = Inr me" "mean_int df = Inr mn" "max_int df = Inr mx" by blast
  then show ?thesis by (simp add: user_interaction_histogram_def Let_def)
qed

text \<open>
  On an interactions table without rows line 62 raises: nothing is printed or plotted.
\<close>

lemma user_interactions_statistics_empty:
  assumes "getitem_col df ''user_id'' = Inr []" and "getattr_col df ''article_id'' = Inr vals"
  shows "user_interactions_statistics df = Inl (AttributeError ''astype'')"
  using assms
  by (simp add: user_interactions_statistics_def groupby_count_def sort_cells_def median_int_def)

lemma user_interaction_histogram_empty:
  "user_interaction_histogram [] = Inl (AttributeError ''astype'')"
  by (simp add: user_interaction_histogram_def mean_int_def)

lemma length_filter_eq: "length (filter (\<lambda>v. v = a) xs) = count_list xs a"
  by (induction xs) auto

lemma length_filter_eq2:
  "a \<noteq> b \<Longrightarrow> length (filter (\<lambda>v. v = a \<or> v = b) xs) = count_list xs a + count_list xs b"
  by (induction xs) auto

lemma strict_sorted_between:
  fixes es :: "nat list"
  assumes s: "sorted_wrt (<) es" and j: "j + 1 < length es" and v: "v \<in> set es"
  shows "(es ! j \<le> v \<and> v < es ! (j + 1)) = (v = es ! j)"
    and "(es ! j \<le> v \<and> v = es ! (j + 1)) = (v = es ! (j + 1))"
    and "es ! j \<noteq> es ! (j + 1)"
proof -
  from v obtain i where i: "i < length es" and vi: "v = es ! i"
    by (auto simp: in_set_conv_nth)
  have lt: "es ! j < es ! (j + 1)"
    using sorted_wrt_nth_less [OF s, of j "j + 1"] j by simp
  then show "es ! j \<noteq> es ! (j + 1)" by simp
  from lt show "(es ! j \<le> v \<and> v = es ! (j + 1)) = (v = es ! (j + 1))" by auto
  show "(es ! j \<le> v \<and> v < es ! (j + 1)) = (v = es ! j)"
  proof (cases "i = j")
    case True
    with vi lt show ?thesis by simp
  next
    case False
    show ?thesis
    proof (cases "i < j")
      case True
      with s j have "es ! i < es ! j"
        by (intro sorted_wrt_nth_less [OF s]) simp_all
      with vi show ?thesis by auto
    next
      case False
      with \<open>i \<noteq> j\<close> have "j + 1 \<le> i" by simp
      then have "es ! (j + 1) \<le> es ! i"
      proof (cases "j + 1 = i")
        case True
        then show ?thesis by simp
      next
        case False
        with \<open>j + 1 \<le> i\<close> have "j + 1 < i" by simp
        then have "es ! (j + 1) < es ! i"
          using i by (intro sorted_wrt_nth_less [OF s]) simp_all
        then show ?thesis by simp
      qed
      with vi lt show ?thesis by auto
    qed
  qed
qed

lemma hist_heights_distinct_edges:
  assumes es: "es = sorted_list_of_set (set df)" and j: "j + 1 < length es"
  shows "hist_heights df es ! j =
     (if j + 2 = length es then count_list df (es ! j) + count_list df (es ! (j + 1))
      else count_list df (es ! j))"
proof -
  have s: "sorted_wrt (<) es" unfolding es by (rule strict_sorted_list_of_set)
  have set: "set es = set df" unfolding es by simp
  let ?P = "\<lambda>v. es ! j \<le> v \<and> (v < es ! (j + 1) \<or> (j + 2 = length es \<and> v = es ! (j + 1)))"
  let ?Q = "\<lambda>v. v = es ! j \<or> (j + 2 = length es \<and> v = es ! (j + 1))"
  have "?P v = ?Q v" if "v \<in> set df" for v
  proof -
    from that set have v: "v \<in> set es" by simp
    note B = strict_sorted_between [OF s j v]
    have "?P v = ((es ! j \<le> v \<and> v < es ! (j + 1)) \<or>
                  (j + 2 = length es \<and> (es ! j \<le> v \<and> v = es ! (j + 1))))"
      by blast
    also have "\<dots> = ?Q v" unfolding B(1) B(2) by simp
    finally show ?thesis .
  qed
  then have f: "filter ?P df = filter ?Q df"
    by (intro filter_cong refl)
  from j have j': "j < length es - 1" by simp
  have h: "hist_heights df es ! j = length (filter ?P df)"
    unfolding hist_heights_def using j' by (simp add: nth_map [of j] del: upt_Suc)
  show ?thesis
  proof (cases "j + 2 = length es")
    case True
    have ne: "es ! j \<noteq> es ! (j + 1)"
      using strict_sorted_between(3) [OF s j] set j by (metis nth_mem add_lessD1)
    have "filter ?Q df = filter (\<lambda>v. v = es ! j \<or> v = es ! (j + 1)) df"
      using True by simp
    then show ?thesis
      unfolding h f using True length_filter_eq2 [OF ne, of df] by simp
  next
    case False
    then have "filter ?Q df = filter (\<lambda>v. v = es ! j) df" by simp
    then show ?thesis
      unfolding h f using False by (simp add: length_filter_eq)
  qed
qed

text \<open>
  Claim C8, as amended. For a non-empty series of per-user counts the histogram is
  drawn, and its bin edges are the distinct counts in ascending order, as many edges as
  distinct counts. The bins lie between consecutive edges, so there is one bin fewer
  than distinct counts: every bin but the last holds the users whose count is the left
  edge of the bin, and the last bin holds the users with the largest count as well as
  those with the second largest.
\<close>

theorem C8_histogram_bins:
  assumes "df \<noteq> []"
  shows "\<exists>h. user_interaction_histogram df = Inr h \<and>
     bins h = sorted_list_of_set (set df) \<and>
     length (bins h) = card (set df) \<and>
     length (heights h) = card (set df) - 1 \<and>
     (\<forall>j. j + 2 < card (set df) \<longrightarrow> heights h ! j = count_list df (bins h ! j)) \<and>
     (2 \<le> card (set df) \<longrightarrow>
        heights h ! (card (set df) - 2) =
          count_list df (bins h ! (card (set df) - 2)) +
          count_list df (bins h ! (card (set df) - 1)))"
proof -
  let ?es = "sorted_list_of_set (set df)"
  from user_interaction_histogram_nonempty [OF assms] obtain a where
    h: "user_interaction_histogram df = Inr \<lparr>bins = ?es, heights = hist_heights df ?es, annotation = a\<rparr>"
    unfolding sort_unique by blast
  let ?h = "\<lparr>bins = ?es, heights = hist_heights df ?es, annotation = a\<rparr>"
  have len: "length ?es = card (set df)" by simp
  have 1: "heights ?h ! j = count_list df (bins ?h ! j)" if "j + 2 < card (set df)" for j
    using hist_heights_distinct_edges [OF refl, of j df] that by (simp add: len)
  have 2: "heights ?h ! (card (set df) - 2) =
          count_list df (bins ?h ! (card (set df) - 2)) +
          count_list df (bins ?h ! (card (set df) - 1))" if "2 \<le> card (set df)"
  proof -
    let ?j = "card (set df) - 2"
    from that have j: "?j + 1 < length ?es" and e: "?j + 2 = length ?es"
      and s: "?j + 1 = card (set df) - 1"
      by (simp_all add: len)
    from hist_heights_distinct_edges [OF refl j] e s show ?thesis by simp
  qed
  have main: "user_interaction_histogram df = Inr ?h \<and>
     bins ?h = sorted_list_of_set (set df) \<and>
     length (bins ?h) = card (set df) \<and>
     length (heights ?h) = card (set df) - 1 \<and>
     (\<forall>j. j + 2 < card (set df) \<longrightarrow> heights ?h ! j = count_list df (bins ?h ! j)) \<and>
     (2 \<le> card (set df) \<longrightarrow>
        heights ?h ! (card (set df) - 2) =
          count_list df (bins ?h ! (card (set df) - 2)) +
          count_list df (bins ?h ! (card (set df) - 1)))"
    using h 1 2 by (simp add: len)
  show ?thesis by (rule exI [of _ ?h]) (rule main)
qed

lemma div32: "Suc (Suc (Suc 0)) div Suc (Suc 0) = Suc 0"
  by code_simp

text \<open>
  Claim C8 as stated fails: two users with the counts \<open>2\<close> and \<open>1\<close> (the scenario of
  the specification) give the edges \<open>1, 2\<close> and a single bin holding both users, not
  one bin for each of the two distinct counts.
\<close>

theorem C8_one_bin_per_value_counterexample:
  "user_interaction_histogram [2, 1] =
     Inr \<lparr>bins = [1, 2], heights = [2], annotation = (1, 1, 2)\<rparr> \<and>
   length (heights \<lparr>bins = [1, 2], heights = [2], annotation = (1, 1, 2)\<rparr>) \<noteq>
     card (set [2, 1 :: nat])"
  by (simp add: user_interaction_histogram_def Let_def hist_heights_def
      median_int_def mean_int_def max_int_def numeral_3_eq_3 div32)

theorem C8_histogram_bins_witness:
  "[1, 2, 3, 3, 7] \<noteq> ([] :: nat list) \<and> card (set [1, 2, 3, 3, 7 :: nat]) = 4 \<and>
   (\<exists>h. user_interaction_histogram [1, 2, 3, 3, 7] = Inr h \<and>
      bins h = [1, 2, 3, 7] \<and> length (heights h) = 3 \<and>
      heights h ! 0 = 1 \<and> heights h ! 1 = 1 \<and> heights h ! 2 = 3)"
proof -
  let ?df = "[1, 2, 3, 3, 7 :: nat]"
  have ne: "?df \<noteq> []" by simp
  have c: "card (set ?df) = 4" by simp
  have es: "sorted_list_of_set (set ?df) = [1, 2, 3, 7]"
    by (simp add: sorted_list_of_set_sort_remdups)
  from C8_histogram_bins [OF ne] obtain h where
    big: "user_interaction_histogram ?df = Inr h \<and>
     bins h = sorted_list_of_set (set ?df) \<and>
     length (bins h) = card (set ?df) \<and>
     length (heights h) = card (set ?df) - 1 \<and>
     (\<forall>j. j + 2 < card (set ?df) \<longrightarrow> heights h ! j = count_list ?df (bins h ! j)) \<and>
     (2 \<le> card (set ?df) \<longrightarrow>
        heights h ! (card (set ?df) - 2) =
          count_list ?df (bins h ! (card (set ?df) - 2)) +
          count_list ?df (bins h ! (card (set ?df) - 1)))"
    by (elim exE) (rule that)
  from big have r: "user_interaction_histogram ?df = Inr h" by (elim conjE)
  from big have b: "bins h = [1, 2, 3, 7]" unfolding es by (elim conjE)
  from big have l: "length (heights h) = 3" unfolding c by simp
  from big have inner: "\<forall>j. j + 2 < 4 \<longrightarrow> heights h ! j = count_list ?df ([1, 2, 3, 7] ! j)"
    unfolding c b by (elim conjE)
  from inner [rule_format, of 0] have h0: "heights h ! 0 = 1" by simp
  from inner [rule_format, of 1] have h1: "heights h ! 1 = 1" by simp
  from big have "heights h ! (4 - 2) =
          count_list ?df ([1, 2, 3, 7] ! (4 - 2)) + count_list ?df ([1, 2, 3, 7] ! (4 - 1))"
    unfolding c b by simp
  then have h2: "heights h ! 2 = 3" by simp
  show ?thesis
    by (intro conjI exI [of _ h]) (rule ne c r b l h0 h1 h2)+
qed

lemma unique_single: "xs \<noteq> [] \<Longrightarrow> \<forall>x\<in>set xs. x = u \<Longrightarrow> unique xs = [u]"
proof (induction xs)
  case Nil
  then show ?case by simp
next
  case (Cons x xs)
  then have "\<forall>y\<in>set (unique xs). y = x" by simp
  then have "filter (\<lambda>y. y \<noteq> x) (unique xs) = []"
    by (simp add: filter_empty_conv)
  with Cons.prems show ?case by simp
qed

lemma groupby_count_single:
  assumes "keys \<noteq> []" and "\<forall>k\<in>set keys. k = u" and "u \<noteq> NaN"
    and "length vals = length keys" and "NaN \<notin> set vals"
  shows "groupby_count keys vals = [(u, length keys)]"
proof -
  have u: "unique keys = [u]" using assms(1,2) by (rule unique_single)
  have "filter (\<lambda>r. fst r = u \<and> snd r \<noteq> NaN) (zip keys vals) = zip keys vals"
    using assms(2,5) by (auto intro!: filter_True dest: set_zip_leftD set_zip_rightD)
  then show ?thesis
    using assms(3,4) by (simp add: groupby_count_def u sort_cells_def)
qed

lemma stats_single:
  "median_int [n] = Inr n" "mean_int [n] = Inr n" "max_int [n] = Inr n"
  by (simp_all add: median_int_def mean_int_def max_int_def)

text \<open>
  Claim C7. On a well-formed, non-empty interactions table whose rows all carry the same
  user id, and whose article ids are present in every row (as the loader leaves them),
  the median, the mean and the maximum of the per-user counts are all the number of
  rows.
\<close>

theorem C7_single_user_statistics:
  assumes "frame_ok df" and "0 < nrows df"
    and "getitem_col df ''user_id'' = Inr keys" and "\<forall>k\<in>set keys. k = u" and "u \<noteq> NaN"
    and "getattr_col df ''article_id'' = Inr vals" and "NaN \<notin> set vals"
  shows "\<exists>report. user_interactions_statistics df = Inr report \<and>
           median_interactions report = nrows df \<and>
           mean_interactions report = nrows df \<and>
           max_interactions report = nrows df"
proof -
  from assms(1,3) have lk: "length keys = nrows df"
    by (simp add: getitem_col_Inr_iff frame_ok_column)
  from assms(1,6) have lv: "length vals = nrows df"
    by (simp add: getattr_col_Inr_iff frame_ok_column)
  from lk assms(2) have ne: "keys \<noteq> []" by auto
  have "groupby_count keys vals = [(u, nrows df)]"
    using groupby_count_single [OF ne assms(4,5) _ assms(7)] lk lv by simp
  then show ?thesis
    by (simp add: user_interactions_statistics_def assms(3,6) stats_single
        user_interaction_histogram_def Let_def)
qed

theorem C7_single_user_statistics_witness:
  "frame_ok single_user_interactions \<and> nrows single_user_interactions = 3 \<and>
   getitem_col single_user_interactions ''user_id'' = Inr [IntV 0, IntV 0, IntV 0] \<and>
   (\<exists>report. user_interactions_statistics single_user_interactions = Inr report \<and>
      median_interactions report = 3 \<and> mean_interactions report = 3 \<and>
      max_interactions report = 3)"
proof -
  let ?df = single_user_interactions
  have ok: "frame_ok ?df" and n: "nrows ?df = 3" and pos: "0 < nrows ?df"
    by (simp_all add: single_user_interactions_def frame_ok_def)
  have k: "getitem_col ?df ''user_id'' = Inr [IntV 0, IntV 0, IntV 0]"
    and v: "getattr_col ?df ''article_id'' = Inr [IntV 1, IntV 1, IntV 2]"
    by (simp_all add: single_user_interactions_def getitem_col_def getattr_col_def)
  have same: "\<forall>k\<in>set [IntV 0, IntV 0, IntV 0]. k = IntV 0" by simp
  have u: "IntV 0 \<noteq> NaN" by simp
  have nn: "NaN \<notin> set [IntV 1, IntV 1, IntV 2]" by simp
  from C7_single_user_statistics [OF ok pos k same u v nn] ok n k
  show ?thesis by simp
qed

section \<open>The join and the ranking\<close>

lemma length_filter_le_1:
  "distinct xs \<Longrightarrow> (\<And>x y. x \<in> set xs \<Longrightarrow> y \<in> set xs \<Longrightarrow> P x \<Longrightarrow> P y \<Longrightarrow> x = y) \<Longrightarrow>
   length (filter P xs) \<le> 1"
proof (induction xs)
  case Nil
  then show ?case by simp
next
  case (Cons a xs)
  show ?case
  proof (cases "P a")
    case True
    have "filter P xs = []"
      unfolding filter_empty_conv
    proof
      fix x assume x: "x \<in> set xs"
      show "\<not> P x"
      proof
        assume "P x"
        with True x Cons.prems(2) [of a x] have "a = x" by simp
        with x Cons.prems(1) show False by simp
      qed
    qed
    with True show ?thesis by simp
  next
    case False
    with Cons show ?thesis by simp
  qed
qed

lemma matches_set: "set (matches k rkeys) = {j. j < length rkeys \<and> rkeys ! j = k}"
  by (auto simp: matches_def)

lemma matches_Nil_iff: "matches k rkeys = [] \<longleftrightarrow> k \<notin> set rkeys"
proof -
  have "matches k rkeys = [] \<longleftrightarrow> (\<forall>j<length rkeys. rkeys ! j \<noteq> k)"
    by (auto simp: matches_def filter_empty_conv)
  also have "\<dots> \<longleftrightarrow> k \<notin> set rkeys"
    by (metis in_set_conv_nth)
  finally show ?thesis .
qed

lemma matches_distinct:
  assumes "distinct rkeys"
  shows "length (matches k rkeys) \<le> 1"
  unfolding matches_def
proof (rule length_filter_le_1)
  show "distinct [0..<length rkeys]" by simp
  fix x y assume "x \<in> set [0..<length rkeys]" "y \<in> set [0..<length rkeys]"
    "rkeys ! x = k" "rkeys ! y = k"
  then show "x = y" using nth_eq_iff_index_eq [OF assms, of x y] by simp
qed

lemma concat_map_singleton: "concat (map (\<lambda>i. [f i]) xs) = map f xs"
  by (induction xs) auto

lemma join_pairs_distinct:
  assumes "distinct rkeys"
  shows "join_pairs lkeys rkeys =
     map (\<lambda>i. (i, case matches (lkeys ! i) rkeys of [] \<Rightarrow> None | j # js \<Rightarrow> Some j))
       [0..<length lkeys]"
proof -
  have "(case matches k rkeys of [] \<Rightarrow> [(i, None)] | ms \<Rightarrow> map (\<lambda>j. (i, Some j)) ms) =
        [(i, case matches k rkeys of [] \<Rightarrow> None | j # js \<Rightarrow> Some j)]" for i :: nat and k
    using matches_distinct [OF assms, of k] by (cases "matches k rkeys") auto
  then have "(\<lambda>i. case matches (lkeys ! i) rkeys of [] \<Rightarrow> [(i, None)]
                 | ms \<Rightarrow> map (\<lambda>j. (i, Some j)) ms) =
             (\<lambda>i. [(i, case matches (lkeys ! i) rkeys of [] \<Rightarrow> None | j # js \<Rightarrow> Some j)])"
    by blast
  then show ?thesis
    unfolding join_pairs_def by (simp only: concat_map_singleton)
qed

lemma map_nth_upt: "length c = m \<Longrightarrow> map (\<lambda>i. c ! i) [0..<m] = c"
  using map_nth [of c] by simp

lemma join_left_Inr:
  assumes j: "join_left left (rkeys, rcols) key = Inr df" and d: "distinct rkeys"
  shows "\<exists>lkeys. map_of (cols left) key = Some lkeys \<and> nrows df = length lkeys \<and>
     map_of (cols df) key = Some lkeys \<and>
     (\<forall>n c. map_of (cols left) n = Some c \<longrightarrow> length c = length lkeys \<longrightarrow>
        map_of (cols df) n = Some c) \<and>
     (\<forall>n c. map_of rcols n = Some c \<longrightarrow>
        map_of (cols df) n =
          Some (map (\<lambda>r. case matches (lkeys ! r) rkeys of [] \<Rightarrow> NaN | j # js \<Rightarrow> c ! j)
                  [0..<length lkeys]))"
proof -
  from j obtain lkeys where lk: "map_of (cols left) key = Some lkeys"
    and no: "\<not> list_ex (\<lambda>n. n \<in> set (columns left)) (map fst rcols)"
    and df: "df = \<lparr>nrows = length (join_pairs lkeys rkeys),
        cols = map (\<lambda>c. (fst c, map (\<lambda>p. snd c ! fst p) (join_pairs lkeys rkeys))) (cols left) @
               map (\<lambda>c. (fst c, map (\<lambda>p. case snd p of None \<Rightarrow> NaN | Some j \<Rightarrow> snd c ! j)
                      (join_pairs lkeys rkeys))) rcols\<rparr>"
    by (auto simp: join_left_def ebind_Inr_iff getitem_col_Inr_iff Let_def split: if_splits)
  let ?g = "\<lambda>i. case matches (lkeys ! i) rkeys of [] \<Rightarrow> None | j # js \<Rightarrow> Some j"
  have jp: "join_pairs lkeys rkeys = map (\<lambda>i. (i, ?g i)) [0..<length lkeys]"
    using d by (rule join_pairs_distinct)
  have L: "map_of (map (\<lambda>c. (fst c, map (\<lambda>p. snd c ! fst p) (join_pairs lkeys rkeys))) (cols left)) n
      = map_option (\<lambda>c. map (\<lambda>i. c ! i) [0..<length lkeys]) (map_of (cols left) n)" for n
    using map_of_map_snd [of "\<lambda>c. map (\<lambda>i. c ! i) [0..<length lkeys]" "cols left" n]
    by (simp add: jp comp_def)
  have R: "map_of (map (\<lambda>c. (fst c, map (\<lambda>p. case snd p of None \<Rightarrow> NaN | Some j \<Rightarrow> snd c ! j)
                      (join_pairs lkeys rkeys))) rcols) n
      = map_option (\<lambda>c. map (\<lambda>r. case matches (lkeys ! r) rkeys of [] \<Rightarrow> NaN | j # js \<Rightarrow> c ! j)
                  [0..<length lkeys]) (map_of rcols n)" for n
  proof -
    have "(case ?g i of None \<Rightarrow> NaN | Some j \<Rightarrow> c ! j) =
          (case matches (lkeys ! i) rkeys of [] \<Rightarrow> NaN | j # js \<Rightarrow> c ! j)" for i and c :: "cell list"
      by (cases "matches (lkeys ! i) rkeys") simp_all
    then show ?thesis
      using map_of_map_snd [of "\<lambda>c. map (\<lambda>r. case matches (lkeys ! r) rkeys of [] \<Rightarrow> NaN
          | j # js \<Rightarrow> c ! j) [0..<length lkeys]" rcols n]
      by (simp add: jp comp_def)
  qed
  have left_col: "map_of (cols df) n = Some c"
    if "map_of (cols left) n = Some c" "length c = length lkeys" for n c
    using that by (simp add: df map_add_def L map_nth_upt)
  have right_col: "map_of (cols df) n =
          Some (map (\<lambda>r. case matches (lkeys ! r) rkeys of [] \<Rightarrow> NaN | j # js \<Rightarrow> c ! j)
                  [0..<length lkeys])"
    if "map_of rcols n = Some c" for n c
  proof -
    from that have "n \<in> fst ` set rcols"
      by (metis map_of_eq_None_iff option.distinct(1))
    with no have "n \<notin> set (columns left)"
      by (auto simp: list_ex_iff)
    then have "map_of (cols left) n = None"
      by (simp add: columns_def map_of_eq_None_iff)
    then show ?thesis
      using that by (simp add: df map_add_def L R)
  qed
  have "nrows df = length lkeys" by (simp add: df jp)
  with lk left_col [OF lk refl] left_col right_col show ?thesis by blast
qed

lemma set_value_counts:
  "set (value_counts xs) = (\<lambda>v. (v, count_list xs v)) ` (set xs - {NaN})"
  by (auto simp: value_counts_def)

lemma value_counts_first:
  assumes "value_counts xs = p # rest"
  shows "fst p \<in> set xs" and "fst p \<noteq> NaN" and "snd p = count_list xs (fst p)"
    and "snd p = Max (count_list xs ` (set xs - {NaN}))"
proof -
  from assms have "p \<in> set (value_counts xs)" by simp
  then show m: "fst p \<in> set xs" and n: "fst p \<noteq> NaN" and c: "snd p = count_list xs (fst p)"
    by (auto simp: set_value_counts)
  let ?f = "\<lambda>p :: cell \<times> nat. - int (snd p)"
  have "sorted (map ?f (value_counts xs))"
    unfolding value_counts_def by (rule sorted_sort_key)
  then have le: "snd q \<le> snd p" if "q \<in> set (value_counts xs)" for q
    using that unfolding assms by auto
  show "snd p = Max (count_list xs ` (set xs - {NaN}))"
  proof (rule Max_eqI [symmetric])
    show "finite (count_list xs ` (set xs - {NaN}))" by simp
    show "snd p \<in> count_list xs ` (set xs - {NaN})" using m n c by blast
    fix y assume "y \<in> count_list xs ` (set xs - {NaN})"
    then obtain v where "v \<in> set xs - {NaN}" "y = count_list xs v" by blast
    then have "(v, y) \<in> set (value_counts xs)" by (auto simp: set_value_counts)
    from le [OF this] show "y \<le> snd p" by simp
  qed
qed

lemma value_counts_Nil_iff: "value_counts xs = [] \<longleftrightarrow> set xs \<subseteq> {NaN}"
proof -
  have "value_counts xs = [] \<longleftrightarrow> set (value_counts xs) = {}" by simp
  then show ?thesis unfolding set_value_counts by auto
qed

lemma process_frames_Inr:
  assumes p: "process_frames a i st = Inr (st', df, pop)" and ne: "a \<noteq> i"
  shows "\<exists>cat_ids ids dedup.
     map_of (cols (st a)) ''article_id'' = Some cat_ids \<and>
     drop_duplicates ''article_id'' (st a) = Inr dedup \<and> st' = st(a := dedup) \<and>
     map_of (cols dedup) ''article_id'' = Some (unique cat_ids) \<and>
     map_of (cols (st i)) ''article_id'' = Some ids \<and>
     join_left (st i) (unique cat_ids, filter (\<lambda>c. fst c \<noteq> ''article_id'') (cols dedup))
       ''article_id'' = Inr df \<and>
     map_of (cols df) ''article_id'' = Some ids \<and> nrows df = length ids \<and>
     pop = value_counts ids"
proof -
  from p ne obtain dedup right df_ids where
    d: "drop_duplicates ''article_id'' (st a) = Inr dedup" and
    st': "st' = st(a := dedup)" and
    r: "set_index ''article_id'' dedup = Inr right" and
    j: "join_left (st i) right ''article_id'' = Inr df" and
    g: "getattr_col df ''article_id'' = Inr df_ids" and
    pop: "pop = value_counts df_ids"
    by (auto simp: process_frames_def ebind_Inr_iff Let_def)
  from drop_duplicates_Inr [OF d] obtain cat_ids where
    c: "map_of (cols (st a)) ''article_id'' = Some cat_ids" and
    c': "map_of (cols dedup) ''article_id'' = Some (unique cat_ids)"
    by blast
  from r c' have right: "right = (unique cat_ids, filter (\<lambda>c. fst c \<noteq> ''article_id'') (cols dedup))"
    by (auto simp: set_index_def ebind_Inr_iff getitem_col_Inr_iff)
  from join_left_Inr [OF j [unfolded right] distinct_unique] obtain ids where
    i: "map_of (cols (st i)) ''article_id'' = Some ids" and n: "nrows df = length ids" and
    k: "map_of (cols df) ''article_id'' = Some ids"
    by blast
  from g k have "df_ids = ids" by (simp add: getattr_col_Inr_iff)
  with c d st' c' i j right n k pop show ?thesis by blast
qed

lemma articles_statistics_Inr:
  assumes "articles_statistics a i st = Inr (report, st')"
  shows "\<exists>df pop df_unique uids p rest.
     process_frames a i st = Inr (st', df, pop) \<and>
     drop_duplicates ''article_id'' df = Inr df_unique \<and>
     map_of (cols (st' i)) ''user_id'' = Some uids \<and> pop = p # rest \<and>
     report = \<lparr>number_of_unique_articles = nrows (st' a),
               number_of_unique_articles_with_interaction = nrows df_unique,
               number_of_unique_users = length (unique uids),
               number_of_user_article_interactions = nrows (st' i),
               most_viewed_article_id = fst p,
               most_viewed_article_views = snd p\<rparr>"
proof -
  from assms obtain processed df_unique uids where
    pf: "process_frames a i st = Inr processed" and
    du: "drop_duplicates ''article_id'' (fst (snd processed)) = Inr df_unique" and
    u: "map_of (cols (fst processed i)) ''user_id'' = Some uids" and
    r: "(case snd (snd processed) of
       [] \<Rightarrow> Inl IndexError
     | most_viewed # ranking \<Rightarrow>
         Inr (\<lparr>number_of_unique_articles = nrows (fst processed a),
               number_of_unique_articles_with_interaction = nrows df_unique,
               number_of_unique_users = length (unique uids),
               number_of_user_article_interactions = nrows (fst processed i),
               most_viewed_article_id = fst most_viewed,
               most_viewed_article_views = snd most_viewed\<rparr>, fst processed)) = Inr (report, st')"
    unfolding articles_statistics_def Let_def
    by (auto simp: ebind_Inr_iff getattr_col_Inr_iff)
  obtain st1 df pop where pr: "processed = (st1, df, pop)" by (cases processed)
  from r obtain p rest where pop: "pop = p # rest" and st1: "st1 = st'"
    and rep: "report = \<lparr>number_of_unique_articles = nrows (st1 a),
               number_of_unique_articles_with_interaction = nrows df_unique,
               number_of_unique_users = length (unique uids),
               number_of_user_article_interactions = nrows (st1 i),
               most_viewed_article_id = fst p,
               most_viewed_article_views = snd p\<rparr>"
    unfolding pr by (cases pop) auto
  from pf du u pop rep show ?thesis
    unfolding pr st1 by auto
qed

lemma has_text_unique: "has_text (unique ks) = has_text ks"
  by (simp add: has_text_def list_ex_iff)

lemma join_left_total:
  assumes "map_of (cols left) key = Some lkeys"
    and "has_text lkeys = has_text rkeys"
    and "\<forall>n\<in>fst ` set rcols. n \<notin> set (columns left)"
  shows "\<exists>df. join_left left (rkeys, rcols) key = Inr df"
  using assms by (simp add: join_left_def getitem_col_def Let_def list_ex_iff)

lemma articles_statistics_total:
  assumes ne: "a \<noteq> i"
    and c: "map_of (cols (st a)) ''article_id'' = Some cat_ids"
    and k: "map_of (cols (st i)) ''article_id'' = Some ids"
    and t: "has_text ids = has_text cat_ids"
    and u: "map_of (cols (st i)) ''user_id'' = Some uids"
    and o: "\<forall>n\<in>set (columns (st a)). n \<noteq> ''article_id'' \<longrightarrow> n \<notin> set (columns (st i))"
    and v: "\<not> set ids \<subseteq> {NaN}"
  shows "\<exists>report st'. articles_statistics a i st = Inr (report, st')"
proof -
  from c obtain dedup where d: "drop_duplicates ''article_id'' (st a) = Inr dedup"
    using drop_duplicates_total by blast
  from drop_duplicates_Inr [OF d] c have
    c': "map_of (cols dedup) ''article_id'' = Some (unique cat_ids)" and
    cc: "columns dedup = columns (st a)"
    by auto
  let ?rcols = "filter (\<lambda>c. fst c \<noteq> ''article_id'') (cols dedup)"
  have r: "set_index ''article_id'' dedup = Inr (unique cat_ids, ?rcols)"
    by (simp add: set_index_def getitem_col_def c')
  have "\<forall>n\<in>fst ` set ?rcols. n \<notin> set (columns (st i))"
  proof
    fix n assume "n \<in> fst ` set ?rcols"
    then have "n \<noteq> ''article_id''" and "n \<in> set (columns dedup)"
      by (auto simp: columns_def)
    with o cc show "n \<notin> set (columns (st i))" by simp
  qed
  then obtain df where j: "join_left (st i) (unique cat_ids, ?rcols) ''article_id'' = Inr df"
    using join_left_total [OF k, of "unique cat_ids" ?rcols] t by (auto simp: has_text_unique)
  from join_left_Inr [OF j distinct_unique] k have
    g: "map_of (cols df) ''article_id'' = Some ids" by auto
  then obtain df_unique where du: "drop_duplicates ''article_id'' df = Inr df_unique"
    using drop_duplicates_total by blast
  from v obtain p rest where pop: "value_counts ids = p # rest"
    using value_counts_Nil_iff [of ids] by (cases "value_counts ids") auto
  have pf: "process_frames a i st = Inr (st(a := dedup), df, value_counts ids)"
    using ne by (simp add: process_frames_def d r j getattr_col_def g Let_def)
  show ?thesis
    using ne by (simp add: articles_statistics_def pf du getattr_col_def u pop Let_def)
qed


section \<open>The article statistics\<close>

lemmas eval_defs = load_data_def read_csv_def scenario_files_def scenario_articles_def
      scenario_interactions_def FILE_ARTICLES_def FILE_INTERACTIONS_def drop_columns_def
      columns_def getattr_col_def getitem_col_def set_column_def encode_emails_def
      exploratory_analysis_def new_store_def user_interactions_statistics_def
      groupby_count_def sort_cells_def median_int_def mean_int_def max_int_def
      user_interaction_histogram_def hist_heights_def articles_statistics_def
      process_frames_def drop_duplicates_def set_index_def join_left_def join_pairs_def
      matches_def has_text_def value_counts_def Let_def select_def series_iter_def
      example_store_def example_articles_def example_interactions_def

lemma scenario_run:
  "\<exists>st'. exploratory_analysis py_int wrap (scenario_files index_a index_i) =
     Inr (\<lparr>median_interactions = 1, mean_interactions = 1, max_interactions = 2,
           plot = \<lparr>bins = [1, 2], heights = [2], annotation = (1, 1, 2)\<rparr>\<rparr>,
          \<lparr>number_of_unique_articles = 2, number_of_unique_articles_with_interaction = 2,
           number_of_unique_users = 2, number_of_user_article_interactions = 3,
           most_viewed_article_id = IntV 1, most_viewed_article_views = 2\<rparr>, st') \<and>
     st' 0 = \<lparr>nrows = 2, cols = [(''article_id'', [IntV 1, IntV 2])]\<rparr> \<and>
     st' 1 = \<lparr>nrows = 3, cols = [(''article_id'', [IntV 1, IntV 1, IntV 2]),
                                 (''user_id'', [IntV 0, IntV 1, IntV 0])]\<rparr>"
  by (simp add: eval_defs div32)

lemma example_run:
  "\<exists>st'. articles_statistics 0 1 example_store =
     Inr (\<lparr>number_of_unique_articles = 2, number_of_unique_articles_with_interaction = 3,
           number_of_unique_users = 2, number_of_user_article_interactions = 4,
           most_viewed_article_id = IntV 7, most_viewed_article_views = 2\<rparr>, st') \<and>
     st' 0 = \<lparr>nrows = 2, cols = [(''doc_full_name'', [StrV ''first'', StrV ''second'']),
                                 (''article_id'', [IntV 1, IntV 2])]\<rparr> \<and>
     st' 1 = example_interactions"
  by (simp add: eval_defs)

text \<open>
  Claim C3. On the two files of the scenario, whatever their unnamed index columns
  hold, the analysis returns, and it reports two articles after deduplication (the
  article table it leaves has two rows), two distinct users, three interactions and the
  article \<open>1\<close> as the most viewed with two views; the loop of the loader, run on the
  email column of the scenario, ends with the dictionary that maps \<open>a@x\<close> to \<open>0\<close> and
  \<open>b@x\<close> to \<open>1\<close>.
\<close>

theorem C3_scenario:
  "\<exists>report1 report2 st'.
     exploratory_analysis py_int wrap (scenario_files index_a index_i) = Inr (report1, report2, st') \<and>
     number_of_unique_articles report2 = 2 \<and> nrows (st' 0) = 2 \<and>
     number_of_unique_users report2 = 2 \<and>
     number_of_user_article_interactions report2 = 3 \<and>
     most_viewed_article_id report2 = IntV 1 \<and> most_viewed_article_views report2 = 2 \<and>
     getattr_col (scenario_interactions index_i) ''email'' = Inr [StrV ''a@x'', StrV ''b@x'', StrV ''a@x''] \<and>
     encode_emails (series_iter [StrV ''a@x'', StrV ''b@x'', StrV ''a@x'']) =
       Inr (2, [(Obj (StrV ''a@x''), 0), (Obj (StrV ''b@x''), 1)], [0, 1, 0])"
proof -
  have "getattr_col (scenario_interactions index_i) ''email'' = Inr [StrV ''a@x'', StrV ''b@x'', StrV ''a@x'']"
    by (simp add: getattr_col_def scenario_interactions_def)
  moreover have "encode_emails (series_iter [StrV ''a@x'', StrV ''b@x'', StrV ''a@x'']) =
       Inr (2, [(Obj (StrV ''a@x''), 0), (Obj (StrV ''b@x''), 1)], [0, 1, 0])"
    by (simp add: encode_emails_def series_iter_def has_text_def)
  ultimately show ?thesis
    using scenario_run [of py_int wrap index_a index_i] by force
qed

text \<open>
  Claim C4. Whenever the article statistics return, on two distinct frames and a
  well-formed interactions table: the joined frame has exactly the rows of the
  interactions table, every column of that table unchanged; every metadata column of
  the deduplicated catalog is a column of the joined frame and holds the missing value
  in each row whose article id is not in the catalog; the reported number of
  interactions is the number of all rows; and the ranking has for the article id of
  every row (matched or not) an entry with the number of rows that carry it.
\<close>

theorem C4_unmatched_interactions_retained:
  assumes run: "articles_statistics articles interactions st = Inr (report, st')"
    and ne: "articles \<noteq> interactions" and ok: "frame_ok (st interactions)"
  shows "\<exists>catalog ids df article_popularity.
      getitem_col (st articles) ''article_id'' = Inr catalog \<and>
      getitem_col (st interactions) ''article_id'' = Inr ids \<and>
      process_frames articles interactions st = Inr (st', df, article_popularity) \<and>
      nrows df = nrows (st interactions) \<and>
      (\<forall>n c. map_of (cols (st interactions)) n = Some c \<longrightarrow> map_of (cols df) n = Some c) \<and>
      (\<forall>n c. n \<noteq> ''article_id'' \<longrightarrow> map_of (cols (st' articles)) n = Some c \<longrightarrow>
         (\<exists>c'. map_of (cols df) n = Some c' \<and> length c' = nrows (st interactions) \<and>
            (\<forall>r<length ids. ids ! r \<notin> set catalog \<longrightarrow> c' ! r = NaN))) \<and>
      number_of_user_article_interactions report = length ids \<and>
      (\<forall>r<length ids. ids ! r \<noteq> NaN \<longrightarrow>
         (ids ! r, count_list ids (ids ! r)) \<in> set article_popularity)"
proof -
  from articles_statistics_Inr [OF run] obtain df pop where
    pf: "process_frames articles interactions st = Inr (st', df, pop)" and
    tot: "number_of_user_article_interactions report = nrows (st' interactions)"
    by auto
  from process_frames_Inr [OF pf ne] obtain catalog ids dedup where
    c: "map_of (cols (st articles)) ''article_id'' = Some catalog" and
    st': "st' = st(articles := dedup)" and
    i: "map_of (cols (st interactions)) ''article_id'' = Some ids" and
    j: "join_left (st interactions) (unique catalog, filter (\<lambda>c. fst c \<noteq> ''article_id'') (cols dedup))
       ''article_id'' = Inr df" and
    n: "nrows df = length ids" and pop: "pop = value_counts ids"
    by blast
  from ok i have len: "length ids = nrows (st interactions)" by (rule frame_ok_column)
  from join_left_Inr [OF j distinct_unique] i have
    left: "\<And>n c. map_of (cols (st interactions)) n = Some c \<Longrightarrow> length c = length ids \<Longrightarrow>
        map_of (cols df) n = Some c" and
    right: "\<And>n c. map_of (filter (\<lambda>c. fst c \<noteq> ''article_id'') (cols dedup)) n = Some c \<Longrightarrow>
        map_of (cols df) n =
          Some (map (\<lambda>r. case matches (ids ! r) (unique catalog) of [] \<Rightarrow> NaN | j # js \<Rightarrow> c ! j)
                  [0..<length ids])"
    by auto
  have 1: "map_of (cols df) n = Some c" if "map_of (cols (st interactions)) n = Some c" for n c
    using left [OF that] frame_ok_column [OF ok that] len by simp
  have 2: "\<exists>c'. map_of (cols df) n = Some c' \<and> length c' = nrows (st interactions) \<and>
            (\<forall>r<length ids. ids ! r \<notin> set catalog \<longrightarrow> c' ! r = NaN)"
    if "n \<noteq> ''article_id''" "map_of (cols (st' articles)) n = Some c" for n c
  proof -
    from that have "map_of (filter (\<lambda>c. fst c \<noteq> ''article_id'') (cols dedup)) n = Some c"
      by (simp add: st' map_of_drop1)
    moreover have "matches k (unique catalog) = []" if "k \<notin> set catalog" for k
      using that by (simp add: matches_Nil_iff)
    ultimately show ?thesis
      using right [of n c] by (simp add: len)
  qed
  have 3: "(ids ! r, count_list ids (ids ! r)) \<in> set pop" if "r < length ids" "ids ! r \<noteq> NaN" for r
    using that by (simp add: pop set_value_counts)
  have 4: "number_of_user_article_interactions report = length ids"
    using tot ne by (simp add: st' len)
  have main: "getitem_col (st articles) ''article_id'' = Inr catalog \<and>
      getitem_col (st interactions) ''article_id'' = Inr ids \<and>
      process_frames articles interactions st = Inr (st', df, pop) \<and>
      nrows df = nrows (st interactions) \<and>
      (\<forall>n c. map_of (cols (st interactions)) n = Some c \<longrightarrow> map_of (cols df) n = Some c) \<and>
      (\<forall>n c. n \<noteq> ''article_id'' \<longrightarrow> map_of (cols (st' articles)) n = Some c \<longrightarrow>
         (\<exists>c'. map_of (cols df) n = Some c' \<and> length c' = nrows (st interactions) \<and>
            (\<forall>r<length ids. ids ! r \<notin> set catalog \<longrightarrow> c' ! r = NaN))) \<and>
      number_of_user_article_interactions report = length ids \<and>
      (\<forall>r<length ids. ids ! r \<noteq> NaN \<longrightarrow>
         (ids ! r, count_list ids (ids ! r)) \<in> set pop)"
  proof (intro conjI allI impI)
    show "getitem_col (st articles) ''article_id'' = Inr catalog"
      using c by (simp add: getitem_col_Inr_iff)
    show "getitem_col (st interactions) ''article_id'' = Inr ids"
      using i by (simp add: getitem_col_Inr_iff)
    show "process_frames articles interactions st = Inr (st', df, pop)" by (rule pf)
    show "nrows df = nrows (st interactions)" using n len by simp
    show "number_of_user_article_interactions report = length ids" by (rule 4)
  next
    fix n c assume "map_of (cols (st interactions)) n = Some c"
    then show "map_of (cols df) n = Some c" by (rule 1)
  next
    fix n c assume "n \<noteq> ''article_id''" "map_of (cols (st' articles)) n = Some c"
    then show "\<exists>c'. map_of (cols df) n = Some c' \<and> length c' = nrows (st interactions) \<and>
            (\<forall>r<length ids. ids ! r \<notin> set catalog \<longrightarrow> c' ! r = NaN)" by (rule 2)
  next
    fix r assume "r < length ids" "ids ! r \<noteq> NaN"
    then show "(ids ! r, count_list ids (ids ! r)) \<in> set pop" by (rule 3)
  qed
  show ?thesis
    by (rule exI [of _ catalog], rule exI [of _ ids], rule exI [of _ df], rule exI [of _ pop])
      (rule main)
qed

lemma example_store_at:
  "example_store 0 = example_articles" "example_store 1 = example_interactions"
  "example_store (Suc 0) = example_interactions"
  by (simp_all add: example_store_def new_store_def)

lemma example_interactions_ok: "frame_ok example_interactions"
  by (simp add: frame_ok_def example_interactions_def)

theorem C4_unmatched_interactions_retained_witness:
  "\<exists>report st' df article_popularity c'.
     articles_statistics 0 1 example_store = Inr (report, st') \<and>
     process_frames 0 1 example_store = Inr (st', df, article_popularity) \<and>
     getitem_col (example_store 0) ''article_id'' = Inr [IntV 1, IntV 1, IntV 2] \<and>
     getitem_col (example_store 1) ''article_id'' = Inr [IntV 1, IntV 7, IntV 7, IntV 2] \<and>
     nrows df = 4 \<and> number_of_user_article_interactions report = 4 \<and>
     (IntV 7, 2) \<in> set article_popularity \<and>
     map_of (cols df) ''doc_full_name'' = Some c' \<and> c' ! 1 = NaN \<and> c' ! 2 = NaN"
proof -
  from example_run obtain report st' where
    run: "articles_statistics 0 1 example_store = Inr (report, st')" and
    a: "st' 0 = \<lparr>nrows = 2, cols = [(''doc_full_name'', [StrV ''first'', StrV ''second'']),
                                 (''article_id'', [IntV 1, IntV 2])]\<rparr>"
    by blast
  have ne: "(0::nat) \<noteq> 1" by simp
  have ok: "frame_ok (example_store 1)"
    unfolding example_store_at by (rule example_interactions_ok)
  from C4_unmatched_interactions_retained [OF run ne ok] obtain catalog ids df pop where
    big: "getitem_col (example_store 0) ''article_id'' = Inr catalog \<and>
      getitem_col (example_store 1) ''article_id'' = Inr ids \<and>
      process_frames 0 1 example_store = Inr (st', df, pop) \<and>
      nrows df = nrows (example_store 1) \<and>
      (\<forall>n c. map_of (cols (example_store 1)) n = Some c \<longrightarrow> map_of (cols df) n = Some c) \<and>
      (\<forall>n c. n \<noteq> ''article_id'' \<longrightarrow> map_of (cols (st' 0)) n = Some c \<longrightarrow>
         (\<exists>c'. map_of (cols df) n = Some c' \<and> length c' = nrows (example_store 1) \<and>
            (\<forall>r<length ids. ids ! r \<notin> set catalog \<longrightarrow> c' ! r = NaN))) \<and>
      number_of_user_article_interactions report = length ids \<and>
      (\<forall>r<length ids. ids ! r \<noteq> NaN \<longrightarrow>
         (ids ! r, count_list ids (ids ! r)) \<in> set pop)"
    by (elim exE) (rule that)
  note c = big [THEN conjunct1]
  note i = big [THEN conjunct2, THEN conjunct1]
  note pf = big [THEN conjunct2, THEN conjunct2, THEN conjunct1]
  note n = big [THEN conjunct2, THEN conjunct2, THEN conjunct2, THEN conjunct1]
  note meta = big [THEN conjunct2, THEN conjunct2, THEN conjunct2, THEN conjunct2,
    THEN conjunct2, THEN conjunct1, rule_format]
  note tot = big [THEN conjunct2, THEN conjunct2, THEN conjunct2, THEN conjunct2,
    THEN conjunct2, THEN conjunct2, THEN conjunct1]
  note popu = big [THEN conjunct2, THEN conjunct2, THEN conjunct2, THEN conjunct2,
    THEN conjunct2, THEN conjunct2, THEN conjunct2, rule_format]
  from c have catalog: "catalog = [IntV 1, IntV 1, IntV 2]"
    by (simp add: example_store_at example_articles_def getitem_col_def)
  from i have ids: "ids = [IntV 1, IntV 7, IntV 7, IntV 2]"
    by (simp add: example_store_at example_interactions_def getitem_col_def)
  from meta [of "''doc_full_name''" "[StrV ''first'', StrV ''second'']"] obtain c' where
    m: "map_of (cols df) ''doc_full_name'' = Some c'" and
    nan: "\<forall>r<length ids. ids ! r \<notin> set catalog \<longrightarrow> c' ! r = NaN"
    by (auto simp: a)
  from nan have n1: "c' ! 1 = NaN" and n2: "c' ! 2 = NaN"
    by (simp_all add: ids catalog)
  from popu [of 1] have p: "(IntV 7, 2) \<in> set pop"
    by (simp add: ids numeral_2_eq_2)
  from n have n4: "nrows df = 4" by (simp add: example_store_at example_interactions_def)
  from tot have t4: "number_of_user_article_interactions report = 4" by (simp add: ids)
  from run pf c i n4 t4 p m n1 n2 show ?thesis
    unfolding catalog ids by blast
qed

text \<open>
  Claim C5. On two distinct frames: whenever the article statistics return, the ranking
  of the article ids of the interaction log starts with the reported article and its
  reported views, these views are the maximum, over the article ids that occur in the
  log, of the number of their rows, and the reported article occurs in the log that
  many times. And the statistics do return on every non-empty interactions table with
  whole-number article ids (as the loader leaves them) and a \<open>user_id\<close> column, when the
  catalog has an \<open>article_id\<close> column without texts and shares no other column label
  with the interactions table.
\<close>

theorem C5_most_viewed_article:
  assumes ne: "articles \<noteq> interactions"
  shows "(\<forall>report st'. articles_statistics articles interactions st = Inr (report, st') \<longrightarrow>
           (\<exists>ids ranking. getitem_col (st interactions) ''article_id'' = Inr ids \<and>
              value_counts ids =
                (most_viewed_article_id report, most_viewed_article_views report) # ranking \<and>
              most_viewed_article_views report = Max (count_list ids ` (set ids - {NaN})) \<and>
              most_viewed_article_id report \<in> set ids - {NaN} \<and>
              count_list ids (most_viewed_article_id report) = most_viewed_article_views report)) \<and>
         (\<forall>ids catalog uids.
            getitem_col (st interactions) ''article_id'' = Inr ids \<and> ids \<noteq> [] \<and>
            (\<forall>k\<in>set ids. \<exists>n. k = IntV n) \<and>
            getattr_col (st interactions) ''user_id'' = Inr uids \<and>
            getitem_col (st articles) ''article_id'' = Inr catalog \<and> \<not> has_text catalog \<and>
            (\<forall>n\<in>set (columns (st articles)).
               n \<noteq> ''article_id'' \<longrightarrow> n \<notin> set (columns (st interactions))) \<longrightarrow>
            (\<exists>report st'. articles_statistics articles interactions st = Inr (report, st')))"
proof (intro conjI allI impI)
  fix report st'
  assume run: "articles_statistics articles interactions st = Inr (report, st')"
  from articles_statistics_Inr [OF run] obtain df pop p rest where
    pf: "process_frames articles interactions st = Inr (st', df, pop)" and
    pop: "pop = p # rest" and
    id: "most_viewed_article_id report = fst p" and
    views: "most_viewed_article_views report = snd p"
    by auto
  from process_frames_Inr [OF pf ne] obtain ids where
    i: "map_of (cols (st interactions)) ''article_id'' = Some ids" and
    v: "pop = value_counts ids"
    by blast
  from v pop have vc: "value_counts ids = p # rest" by simp
  note F = value_counts_first [OF vc]
  have "getitem_col (st interactions) ''article_id'' = Inr ids \<and>
        value_counts ids =
          (most_viewed_article_id report, most_viewed_article_views report) # rest \<and>
        most_viewed_article_views report = Max (count_list ids ` (set ids - {NaN})) \<and>
        most_viewed_article_id report \<in> set ids - {NaN} \<and>
        count_list ids (most_viewed_article_id report) = most_viewed_article_views report"
    using i vc F by (simp add: getitem_col_Inr_iff id views prod_eq_iff)
  then show "\<exists>ids ranking. getitem_col (st interactions) ''article_id'' = Inr ids \<and>
              value_counts ids =
                (most_viewed_article_id report, most_viewed_article_views report) # ranking \<and>
              most_viewed_article_views report = Max (count_list ids ` (set ids - {NaN})) \<and>
              most_viewed_article_id report \<in> set ids - {NaN} \<and>
              count_list ids (most_viewed_article_id report) = most_viewed_article_views report"
    by (intro exI)
next
  fix ids catalog uids
  assume h: "getitem_col (st interactions) ''article_id'' = Inr ids \<and> ids \<noteq> [] \<and>
            (\<forall>k\<in>set ids. \<exists>n. k = IntV n) \<and>
            getattr_col (st interactions) ''user_id'' = Inr uids \<and>
            getitem_col (st articles) ''article_id'' = Inr catalog \<and> \<not> has_text catalog \<and>
            (\<forall>n\<in>set (columns (st articles)).
               n \<noteq> ''article_id'' \<longrightarrow> n \<notin> set (columns (st interactions)))"
  then have ints: "\<forall>k\<in>set ids. \<exists>n. k = IntV n" and nonempty: "ids \<noteq> []" by simp_all
  from ints have t: "has_text ids = has_text catalog"
    using h by (auto simp: has_text_def list_ex_iff)
  from nonempty obtain k where "k \<in> set ids" by (cases ids) auto
  with ints have v: "\<not> set ids \<subseteq> {NaN}" by auto
  show "\<exists>report st'. articles_statistics articles interactions st = Inr (report, st')"
    using h by (intro articles_statistics_total [OF ne _ _ t _ _ v])
      (simp_all add: getitem_col_Inr_iff getattr_col_Inr_iff)
qed

theorem C5_most_viewed_article_witness:
  "\<exists>report st'.
     articles_statistics 0 1 example_store = Inr (report, st') \<and>
     getitem_col (example_store 1) ''article_id'' = Inr [IntV 1, IntV 7, IntV 7, IntV 2] \<and>
     most_viewed_article_id report = IntV 7 \<and> most_viewed_article_views report = 2 \<and>
     Max (count_list [IntV 1, IntV 7, IntV 7, IntV 2] `
            (set [IntV 1, IntV 7, IntV 7, IntV 2] - {NaN})) = 2"
proof -
  have ne: "(0::nat) \<noteq> 1" by simp
  note T = C5_most_viewed_article [OF ne, of example_store]
  have i: "getitem_col (example_store 1) ''article_id'' = Inr [IntV 1, IntV 7, IntV 7, IntV 2]"
    by (simp add: example_store_at example_interactions_def getitem_col_def)
  have pre: "getitem_col (example_store 1) ''article_id'' = Inr [IntV 1, IntV 7, IntV 7, IntV 2] \<and>
      [IntV 1, IntV 7, IntV 7, IntV 2] \<noteq> [] \<and>
      (\<forall>k\<in>set [IntV 1, IntV 7, IntV 7, IntV 2]. \<exists>n. k = IntV n) \<and>
      getattr_col (example_store 1) ''user_id'' = Inr [IntV 0, IntV 1, IntV 0, IntV 0] \<and>
      getitem_col (example_store 0) ''article_id'' = Inr [IntV 1, IntV 1, IntV 2] \<and>
      \<not> has_text [IntV 1, IntV 1, IntV 2] \<and>
      (\<forall>n\<in>set (columns (example_store 0)).
         n \<noteq> ''article_id'' \<longrightarrow> n \<notin> set (columns (example_store 1)))"
    by (simp add: example_store_at example_interactions_def example_articles_def
        getitem_col_def getattr_col_def has_text_def columns_def)
  from T [THEN conjunct2, rule_format, OF pre] obtain report st' where
    run: "articles_statistics 0 1 example_store = Inr (report, st')" by blast
  from T [THEN conjunct1, rule_format, OF run] obtain ids ranking where
    res: "getitem_col (example_store 1) ''article_id'' = Inr ids \<and>
      value_counts ids =
        (most_viewed_article_id report, most_viewed_article_views report) # ranking \<and>
      most_viewed_article_views report = Max (count_list ids ` (set ids - {NaN})) \<and>
      most_viewed_article_id report \<in> set ids - {NaN} \<and>
      count_list ids (most_viewed_article_id report) = most_viewed_article_views report"
    by (elim exE) (rule that)
  from res i have ids: "ids = [IntV 1, IntV 7, IntV 7, IntV 2]" by simp
  have vc: "value_counts [IntV 1, IntV 7, IntV 7, IntV 2] = [(IntV 7, 2), (IntV 1, 1), (IntV 2, 1)]"
    by (simp add: value_counts_def)
  from res have "most_viewed_article_id report = IntV 7 \<and> most_viewed_article_views report = 2"
    unfolding ids vc by simp
  moreover from res have "most_viewed_article_views report =
      Max (count_list [IntV 1, IntV 7, IntV 7, IntV 2] `
            (set [IntV 1, IntV 7, IntV 7, IntV 2] - {NaN}))"
    unfolding ids by blast
  ultimately show ?thesis using run i by auto
qed

text \<open>
  Claim C10. Whenever the article statistics return, on two distinct frames, the store
  they leave holds the interactions table exactly as it was; the only frame that has
  changed is the article table, which now holds its deduplication; and the number of
  distinct users, the number of interactions and the views of the most viewed article
  are those of the interactions table as it was before the call.
\<close>

theorem C10_interactions_unchanged:
  assumes run: "articles_statistics articles interactions st = Inr (report, st')"
    and ne: "articles \<noteq> interactions"
  shows "st' interactions = st interactions \<and>
         drop_duplicates ''article_id'' (st articles) = Inr (st' articles) \<and>
         st' = st(articles := st' articles) \<and>
         (\<exists>ids user_ids.
            getitem_col (st interactions) ''article_id'' = Inr ids \<and>
            getattr_col (st interactions) ''user_id'' = Inr user_ids \<and>
            number_of_unique_users report = card (set user_ids) \<and>
            number_of_user_article_interactions report = nrows (st interactions) \<and>
            most_viewed_article_views report = count_list ids (most_viewed_article_id report) \<and>
            most_viewed_article_views report = Max (count_list ids ` (set ids - {NaN})))"
proof -
  from articles_statistics_Inr [OF run] obtain df pop uids p rest where
    pf: "process_frames articles interactions st = Inr (st', df, pop)" and
    u: "map_of (cols (st' interactions)) ''user_id'' = Some uids" and
    pop: "pop = p # rest" and
    users: "number_of_unique_users report = length (unique uids)" and
    tot: "number_of_user_article_interactions report = nrows (st' interactions)" and
    id: "most_viewed_article_id report = fst p" and
    views: "most_viewed_article_views report = snd p"
    by auto
  from process_frames_Inr [OF pf ne] obtain ids dedup where
    d: "drop_duplicates ''article_id'' (st articles) = Inr dedup" and
    st': "st' = st(articles := dedup)" and
    i: "map_of (cols (st interactions)) ''article_id'' = Some ids" and
    v: "pop = value_counts ids"
    by blast
  from st' ne have same: "st' interactions = st interactions" by simp
  from st' have a: "st' articles = dedup" by simp
  from v pop have vc: "value_counts ids = p # rest" by simp
  note F = value_counts_first [OF vc]
  have "getitem_col (st interactions) ''article_id'' = Inr ids \<and>
        getattr_col (st interactions) ''user_id'' = Inr uids \<and>
        number_of_unique_users report = card (set uids) \<and>
        number_of_user_article_interactions report = nrows (st interactions) \<and>
        most_viewed_article_views report = count_list ids (most_viewed_article_id report) \<and>
        most_viewed_article_views report = Max (count_list ids ` (set ids - {NaN}))"
    using i u users tot F(3,4)
    by (simp add: same getitem_col_Inr_iff getattr_col_Inr_iff length_unique id views)
  then have "\<exists>ids user_ids.
        getitem_col (st interactions) ''article_id'' = Inr ids \<and>
        getattr_col (st interactions) ''user_id'' = Inr user_ids \<and>
        number_of_unique_users report = card (set user_ids) \<and>
        number_of_user_article_interactions report = nrows (st interactions) \<and>
        most_viewed_article_views report = count_list ids (most_viewed_article_id report) \<and>
        most_viewed_article_views report = Max (count_list ids ` (set ids - {NaN}))"
    by (intro exI)
  with same d st' a show ?thesis by simp
qed

text \<open>
  In the pipeline the two frames are the distinct objects \<open>0\<close> and \<open>1\<close>: the store the
  analysis leaves holds the interactions table as the loader returned it.
\<close>

lemma exploratory_analysis_store:
  assumes "exploratory_analysis py_int wrap files = Inr (report1, report2, st')"
  shows "\<exists>articles interactions.
     load_data py_int wrap files = Inr (articles, interactions) \<and>
     user_interactions_statistics interactions = Inr report1 \<and>
     articles_statistics 0 1 (new_store articles interactions) = Inr (report2, st') \<and>
     st' 1 = interactions \<and> drop_duplicates ''article_id'' articles = Inr (st' 0)"
proof -
  from assms obtain articles interactions where
    l: "load_data py_int wrap files = Inr (articles, interactions)" and
    r1: "user_interactions_statistics (new_store articles interactions 1) = Inr report1" and
    r2: "articles_statistics 0 1 (new_store articles interactions) = Inr (report2, st')"
    by (auto simp: exploratory_analysis_def ebind_Inr_iff Let_def)
  have s0: "new_store articles interactions 0 = articles"
    and s1: "new_store articles interactions 1 = interactions"
    by (simp_all add: new_store_def)
  have ne: "(0::nat) \<noteq> 1" by simp
  from articles_statistics_Inr [OF r2] obtain df pop where
    pf: "process_frames 0 1 (new_store articles interactions) = Inr (st', df, pop)"
    by auto
  from process_frames_Inr [OF pf ne] obtain dedup where
    d: "drop_duplicates ''article_id'' (new_store articles interactions 0) = Inr dedup" and
    st': "st' = (new_store articles interactions)(0 := dedup)"
    by blast
  from st' have "st' 1 = interactions" and "st' 0 = dedup" by (simp_all add: new_store_def)
  with l r1 r2 d show ?thesis unfolding s0 s1 by simp
qed

theorem C10_interactions_unchanged_witness:
  "\<exists>report st'.
     articles_statistics 0 1 example_store = Inr (report, st') \<and>
     st' 1 = example_interactions \<and>
     drop_duplicates ''article_id'' example_articles = Inr (st' 0) \<and>
     nrows (st' 0) = 2 \<and> nrows example_articles = 3 \<and>
     number_of_user_article_interactions report = 4"
proof -
  from example_run obtain report st' where
    run: "articles_statistics 0 1 example_store = Inr (report, st')" and
    a: "st' 0 = \<lparr>nrows = 2, cols = [(''doc_full_name'', [StrV ''first'', StrV ''second'']),
                                 (''article_id'', [IntV 1, IntV 2])]\<rparr>"
    by blast
  have ne: "(0::nat) \<noteq> 1" by simp
  note T = C10_interactions_unchanged [OF run ne]
  from T have 1: "st' 1 = example_interactions"
    by (simp add: example_store_at)
  from T have 2: "drop_duplicates ''article_id'' example_articles = Inr (st' 0)"
    by (simp add: example_store_at)
  from T have "number_of_user_article_interactions report = nrows (example_store 1)"
    by blast
  then have 3: "number_of_user_article_interactions report = 4"
    by (simp add: example_store_at example_interactions_def)
  have 4: "nrows (st' 0) = 2" by (simp add: a)
  have 5: "nrows example_articles = 3" by (simp add: example_articles_def)
  from run 1 2 3 4 5 show ?thesis by blast
qed

text \<open>
  The interactions table the loader returns has whole numbers in its \<open>article_id\<close> and
  \<open>user_id\<close> columns, one of each per row.
\<close>

lemma load_data_interactions_table:
  assumes "load_data py_int wrap files = Inr (articles, interactions)"
  shows "\<exists>ids user_ids.
     getitem_col interactions ''article_id'' = Inr ids \<and> (\<forall>c\<in>set ids. \<exists>n. c = IntV n) \<and>
     getitem_col interactions ''user_id'' = Inr user_ids \<and> (\<forall>c\<in>set user_ids. \<exists>n. c = IntV n) \<and>
     length ids = nrows interactions \<and> length user_ids = nrows interactions"
proof -
  from load_data_Inr [OF assms] obtain a0 i0 ids0 ids emails where
    big: "files FILE_ARTICLES = Some a0 \<and> files FILE_INTERACTIONS = Some i0 \<and>
     ''Unnamed: 0'' \<in> set (columns a0) \<and> ''Unnamed: 0'' \<in> set (columns i0) \<and>
     articles = a0\<lparr>cols := filter (\<lambda>c. fst c \<notin> set [''Unnamed: 0'']) (cols a0)\<rparr> \<and>
     map_of (cols i0) ''article_id'' = Some ids0 \<and> astype_int py_int wrap ids0 = Inr ids \<and>
     map_of (cols i0) ''email'' = Some emails \<and>
     length ids = nrows i0 \<and> length emails = nrows i0 \<and> nrows interactions = nrows i0 \<and>
     map_of (cols interactions) =
       ((map_of (cols i0))(''Unnamed: 0'' := None, ''article_id'' \<mapsto> ids, ''email'' := None,
          ''user_id'' \<mapsto> map (IntV \<circ> index_in (unique (series_iter emails))) (series_iter emails))) \<and>
     set (columns interactions) =
       insert ''user_id'' (set (columns i0) - {''Unnamed: 0'', ''email''}) \<and>
     (frame_ok i0 \<longrightarrow> frame_ok interactions)"
    by (elim exE) (rule that)
  from big have as: "astype_int py_int wrap ids0 = Inr ids" by (elim conjE)
  from big have l1: "length ids = nrows i0" by (elim conjE)
  from big have l2: "length emails = nrows i0" by (elim conjE)
  from big have n: "nrows interactions = nrows i0" by (elim conjE)
  from big have m: "map_of (cols interactions) =
       ((map_of (cols i0))(''Unnamed: 0'' := None, ''article_id'' \<mapsto> ids, ''email'' := None,
          ''user_id'' \<mapsto> map (IntV \<circ> index_in (unique (series_iter emails))) (series_iter emails)))" by (elim conjE)
  let ?u = "map (IntV \<circ> index_in (unique (series_iter emails))) (series_iter emails)"
  have "getitem_col interactions ''article_id'' = Inr ids \<and> (\<forall>c\<in>set ids. \<exists>n. c = IntV n) \<and>
     getitem_col interactions ''user_id'' = Inr ?u \<and> (\<forall>c\<in>set ?u. \<exists>n. c = IntV n) \<and>
     length ids = nrows interactions \<and> length ?u = nrows interactions"
  proof (intro conjI)
    show "getitem_col interactions ''article_id'' = Inr ids"
      and "getitem_col interactions ''user_id'' = Inr ?u"
      by (simp_all add: getitem_col_Inr_iff m)
    show "\<forall>c\<in>set ids. \<exists>n. c = IntV n" using as by (rule astype_int_ints)
    show "\<forall>c\<in>set ?u. \<exists>n. c = IntV n" by simp
    show "length ids = nrows interactions" and "length ?u = nrows interactions"
      using l1 l2 n by simp_all
  qed
  then show ?thesis by (intro exI)
qed

text \<open>
  Line 110 on a catalog without duplicates: the article statistics leave the whole store
  as it was.
\<close>

lemma articles_statistics_distinct_catalog:
  assumes run: "articles_statistics articles interactions st = Inr (report, st')"
    and ne: "articles \<noteq> interactions" and ok: "frame_ok (st articles)"
    and ids: "getitem_col (st articles) ''article_id'' = Inr ids" and d: "distinct ids"
  shows "st' = st"
proof -
  from articles_statistics_Inr [OF run] obtain df pop where
    pf: "process_frames articles interactions st = Inr (st', df, pop)" by auto
  from process_frames_Inr [OF pf ne] obtain dedup where
    dd: "drop_duplicates ''article_id'' (st articles) = Inr dedup" and
    st': "st' = st(articles := dedup)"
    by blast
  from ids have "map_of (cols (st articles)) ''article_id'' = Some ids"
    by (simp add: getitem_col_Inr_iff)
  from drop_duplicates_distinct [OF ok this d] dd have "dedup = st articles" by simp
  with st' show ?thesis by simp
qed

text \<open>The maximum of line 64 is the greatest of the counts.\<close>

lemma max_int_Max: "xs \<noteq> [] \<Longrightarrow> max_int xs = Inr (Max (set xs))"
proof (cases xs)
  case Nil
  assume "xs \<noteq> []"
  with Nil show ?thesis by simp
next
  case (Cons a list)
  have "Max (set (a # list)) = fold max list a" by (rule Max.set_eq_fold)
  with Cons show ?thesis by (simp add: max_int_def)
qed

end
